theory Spec2Isabelle
  imports Complex_Main "HOL-Library.Multiset"
begin

section \<open>The graph view\<close>

text \<open>
  \<^verbatim>\<open>GraphSampler\<close> holds a networkx \<^verbatim>\<open>Graph\<close> in \<^verbatim>\<open>self.G\<close> and builds its
  subgraph samples with \<^verbatim>\<open>nx.Graph()\<close>. The class \<^verbatim>\<open>Graph\<close> belongs to the
  networkx library, which is not part of the repository. A graph is modelled as networkx
  stores it: an insertion-ordered dictionary from each node to the insertion-ordered
  collection of its neighbours, written as an association list.
\<close>

type_synonym 'a graph = "('a \<times> 'a list) list"

datatype error =
    NodeNotInGraph          \<comment> \<open>\<^verbatim>\<open>NetworkXError\<close>: \<^verbatim>\<open>G.neighbors(n)\<close> for a node that is not in the graph\<close>
  | ZeroDivisionError       \<comment> \<open>Python's \<^verbatim>\<open>ZeroDivisionError\<close> of the operator \<^verbatim>\<open>/\<close>\<close>
  | InsufficientPopulation  \<comment> \<open>the \<^verbatim>\<open>ValueError\<close> of \<^verbatim>\<open>random.sample\<close>:
                                 "Sample larger than population or is negative"\<close>

text \<open>Modelled from the spec: \<^verbatim>\<open>nx.Graph()\<close>, the graph with no node (networkx is not
  under src/; section 3 of the specification: a set of nodes and a set of edges).\<close>

definition empty_graph :: "'a graph" where
  "empty_graph = []"

text \<open>Modelled from the spec: \<^verbatim>\<open>G.nodes()\<close>, "all nodes" of the graph view (networkx is
  not under src/), in the insertion order in which networkx iterates them.\<close>

definition nodes :: "'a graph \<Rightarrow> 'a list" where
  "nodes G = map fst G"

text \<open>Modelled from the spec: \<^verbatim>\<open>G.number_of_nodes()\<close> (networkx is not under src/).\<close>

definition number_of_nodes :: "'a graph \<Rightarrow> nat" where
  "number_of_nodes G = length G"

text \<open>Modelled from the spec: \<^verbatim>\<open>G.neighbors(n)\<close>, the neighbours of a node (networkx is
  not under src/). networkx raises \<^verbatim>\<open>NetworkXError\<close> when the node is not in the graph.\<close>

definition neighbors :: "'a graph \<Rightarrow> 'a \<Rightarrow> error + 'a list" where
  "neighbors G n = (case map_of G n of None \<Rightarrow> Inl NodeNotInGraph | Some nbrs \<Rightarrow> Inr nbrs)"

text \<open>The adjacency of a node as a plain list, empty for a node that is not in the graph;
  it is used to state properties, not by the sampling code.\<close>

definition adj :: "'a graph \<Rightarrow> 'a \<Rightarrow> 'a list" where
  "adj G n = (case map_of G n of None \<Rightarrow> [] | Some nbrs \<Rightarrow> nbrs)"

text \<open>Modelled from the spec: \<^verbatim>\<open>G.degree(n)\<close>, a non-negative count (networkx is not under
  src/): the number of neighbours, a self-loop counting twice as in networkx. The sampling
  code asks only for the degree of nodes of the graph.\<close>

definition degree :: "'a graph \<Rightarrow> 'a \<Rightarrow> nat" where
  "degree G n = length (adj G n) + (if n \<in> set (adj G n) then 1 else 0)"

text \<open>Modelled from the spec: \<^verbatim>\<open>G.edges()\<close>, "all edges" (networkx is not under src/).
  networkx walks the nodes in order and reports every neighbour that is not a node it has
  already walked, so that an undirected edge is reported once.\<close>

fun edges_from :: "'a list \<Rightarrow> 'a graph \<Rightarrow> ('a \<times> 'a) list" where
  "edges_from seen [] = []"
| "edges_from seen ((n, nbrs) # G) =
     map (Pair n) (filter (\<lambda>nbr. nbr \<notin> set seen) nbrs) @ edges_from (n # seen) G"

definition edges :: "'a graph \<Rightarrow> ('a \<times> 'a) list" where
  "edges G = edges_from [] G"

text \<open>Modelled from the spec: \<^verbatim>\<open>G.add_node(n)\<close> of the sample graph (networkx is not under
  src/): a node already present is left as it is.\<close>

definition add_node :: "'a graph \<Rightarrow> 'a \<Rightarrow> 'a graph" where
  "add_node G n = (if n \<in> set (nodes G) then G else G @ [(n, [])])"

definition add_nbr :: "'a graph \<Rightarrow> 'a \<Rightarrow> 'a \<Rightarrow> 'a graph" where
  "add_nbr G u v =
     map (\<lambda>(w, nbrs). if w = u then (w, if v \<in> set nbrs then nbrs else nbrs @ [v]) else (w, nbrs)) G"

text \<open>Modelled from the spec: \<^verbatim>\<open>G.add_edge(u, v)\<close> of the sample graph (networkx is not
  under src/): both end points become nodes and each becomes a neighbour of the other
  (symmetry, section 3 of the specification).\<close>

definition add_edge :: "'a graph \<Rightarrow> 'a \<Rightarrow> 'a \<Rightarrow> 'a graph" where
  "add_edge G u v = add_nbr (add_nbr (add_node (add_node G u) v) u v) v u"

text \<open>
  The graphs networkx can hold: the nodes are the keys of a dictionary, so no node occurs
  twice; the neighbours of a node are the keys of a dictionary too; every neighbour is a
  node; and the adjacency is symmetric.
\<close>

definition wf_graph :: "'a graph \<Rightarrow> bool" where
  "wf_graph G \<longleftrightarrow>
     distinct (nodes G) \<and>
     list_all (\<lambda>(u, nbrs). distinct nbrs \<and>
        list_all (\<lambda>v. v \<in> set (nodes G) \<and> u \<in> set (adj G v)) nbrs) G"

section \<open>The random source\<close>

text \<open>
  The code draws from Python's process-wide generator. The model takes the outcomes of
  the draws as an argument. A shuffle is decided by one natural number, read in the
  factorial number system: the element at position \<open>r mod length xs\<close> comes first, and
  the rest is shuffled by \<open>r div length xs\<close>. Every result is a reordering of the list
  and every reordering is the result for some number.
\<close>

function shuffle :: "nat \<Rightarrow> 'a list \<Rightarrow> 'a list" where
  "shuffle r xs =
     (if xs = [] then []
      else xs ! (r mod length xs) #
           shuffle (r div length xs) (take (r mod length xs) xs @ drop (Suc (r mod length xs)) xs))"
  by pat_completeness auto
termination
proof (relation "measure (\<lambda>(r, xs). length xs)")
  show "wf (measure (\<lambda>(r :: nat, xs :: 'a list). length xs))" by simp
next
  fix r :: nat and xs :: "'a list"
  assume "xs \<noteq> []"
  then have "r mod length xs < length xs" by simp
  then show "((r div length xs, take (r mod length xs) xs @ drop (Suc (r mod length xs)) xs), (r, xs))
      \<in> measure (\<lambda>(r, xs). length xs)"
    by simp
qed

declare shuffle.simps [simp del]

text \<open>\<^verbatim>\<open>random.choice(seq)\<close> on a sequence that is not empty.\<close>

definition choice :: "nat \<Rightarrow> 'a list \<Rightarrow> 'a" where
  "choice r xs = xs ! (r mod length xs)"

text \<open>The next outcome of a sequence of draws; a sequence that is used up goes on with 0.\<close>

fun draw :: "nat list \<Rightarrow> nat \<times> nat list" where
  "draw [] = (0, [])"
| "draw (r # rs) = (r, rs)"

text \<open>The slice \<^verbatim>\<open>xs[:k]\<close> of Python; a negative \<open>k\<close> counts from the end.\<close>

definition slice_to :: "int \<Rightarrow> 'a list \<Rightarrow> 'a list" where
  "slice_to k xs = (if 0 \<le> k then take (nat k) xs else take (nat (int (length xs) + k)) xs)"

section \<open>Selections of nodes and edges\<close>

text \<open>\<^verbatim>\<open>random_edge_sampling\<close>: shuffle the list of all edges, return the first \<open>k\<close>.\<close>

definition random_edge_sampling :: "'a graph \<Rightarrow> nat \<Rightarrow> int \<Rightarrow> ('a \<times> 'a) list" where
  "random_edge_sampling G r sample_size =
     (let edges1 = edges G;
          edges2 = shuffle r edges1;
          sampled_edges = slice_to sample_size edges2
      in sampled_edges)"

text \<open>\<^verbatim>\<open>random_node_sampling\<close>: \<^verbatim>\<open>random.sample\<close> raises when the sample is larger than
  the population or negative, and otherwise returns the elements at \<open>k\<close> different
  positions of the population, in the order of selection.\<close>

definition sample :: "nat \<Rightarrow> 'a list \<Rightarrow> int \<Rightarrow> error + 'a list" where
  "sample r population k =
     (if 0 \<le> k \<and> k \<le> int (length population)
      then Inr (take (nat k) (shuffle r population))
      else Inl InsufficientPopulation)"

definition random_node_sampling :: "'a graph \<Rightarrow> nat \<Rightarrow> int \<Rightarrow> error + 'a list" where
  "random_node_sampling G r sample_size = sample r (nodes G) sample_size"

text \<open>\<^verbatim>\<open>degree_based_node_sampling\<close>: \<^verbatim>\<open>sorted(..., reverse=True)\<close> is a stable sort in
  descending order of the key, which is a stable ascending sort by the negated key.\<close>

definition sorted_reverse :: "('a \<Rightarrow> nat) \<Rightarrow> 'a list \<Rightarrow> 'a list" where
  "sorted_reverse key xs = sort_key (\<lambda>x. - int (key x)) xs"

definition degree_based_node_sampling :: "'a graph \<Rightarrow> int \<Rightarrow> 'a list" where
  "degree_based_node_sampling G sample_size =
     (let nodes_sorted_by_degree = sorted_reverse (\<lambda>x. degree G x) (nodes G);
          sampled_nodes = slice_to sample_size nodes_sorted_by_degree
      in sampled_nodes)"

text \<open>\<^verbatim>\<open>induced_edge_sampling\<close>: the nodes are shuffled, then the neighbours of each node
  are shuffled and the pairs (node, neighbour) appended while fewer than \<open>sample_size\<close>
  pairs are sampled. The inner loop returns from the function at the first neighbour it
  finds the quota full for; the flag of \<open>ies_neighbors\<close> says that it returned.\<close>

fun ies_neighbors :: "'a \<Rightarrow> 'a list \<Rightarrow> ('a \<times> 'a) list \<Rightarrow> int \<Rightarrow> ('a \<times> 'a) list \<times> bool" where
  "ies_neighbors node [] sampled_edges sample_size = (sampled_edges, False)"
| "ies_neighbors node (neighbor # rest) sampled_edges sample_size =
     (if int (length sampled_edges) < sample_size
      then ies_neighbors node rest (sampled_edges @ [(node, neighbor)]) sample_size
      else (sampled_edges, True))"

fun ies_nodes :: "'a graph \<Rightarrow> nat list \<Rightarrow> 'a list \<Rightarrow> ('a \<times> 'a) list \<Rightarrow> int \<Rightarrow> error + ('a \<times> 'a) list" where
  "ies_nodes G rs [] sampled_edges sample_size = Inr sampled_edges"
| "ies_nodes G rs (node # rest) sampled_edges sample_size =
     (case neighbors G node of
        Inl e \<Rightarrow> Inl e
      | Inr nbrs \<Rightarrow>
          (case ies_neighbors node (shuffle (fst (draw rs)) nbrs) sampled_edges sample_size of
             (sampled_edges', returned) \<Rightarrow>
               if returned then Inr sampled_edges'
               else ies_nodes G (snd (draw rs)) rest sampled_edges' sample_size))"

definition induced_edge_sampling :: "'a graph \<Rightarrow> nat list \<Rightarrow> int \<Rightarrow> error + ('a \<times> 'a) list" where
  "induced_edge_sampling G rs sample_size =
     ies_nodes G (snd (draw rs)) (shuffle (fst (draw rs)) (nodes G)) [] sample_size"

section \<open>Walks that return a subgraph\<close>

text \<open>
  The two walks loop until the sample has \<open>num_samples\<close> nodes or the walk is at a node
  without neighbours, and nothing else ends them: a walk between two nodes that are the
  whole component never returns when more nodes are asked for. The model takes the outcomes
  of the draws of the successive iterations as a list, one element for each iteration, and
  returns \<open>None\<close> when the list is used up before the loop has ended: the run has not
  returned within these draws. Every run of the code that returns is the run on the finite
  list of the draws it made.
\<close>

text \<open>
  The quotient \<^verbatim>\<open>a / b\<close> of two Python integers is a binary64 floating-point number: the
  number with a significand of 53 bits that is nearest to the exact quotient, a tie going to
  the even significand. A floating-point number is given here by its exact value, a
  rational. With \<open>2 ^ e \<le> a / b < 2 ^ (e + 1)\<close> the candidates are the multiples of
  \<open>2 ^ (e - 52)\<close>; \<open>exponent_up\<close> is the \<open>e\<close> of a quotient that is at least 1 and
  \<open>exponent_down\<close> is the \<open>- e\<close> of a quotient below 1. The range of the exponent of
  binary64 is not modelled: the quotient of two degrees of a graph in memory is far inside it.
\<close>

definition round_half_even :: "int \<Rightarrow> int \<Rightarrow> int" where
  "round_half_even n d =
     (let q = n div d; r = n mod d in
      if 2 * r < d then q else if d < 2 * r then q + 1 else if even q then q else q + 1)"

function exponent_up :: "nat \<Rightarrow> nat \<Rightarrow> nat" where
  "exponent_up a b = (if 0 < b \<and> 2 * b \<le> a then Suc (exponent_up a (2 * b)) else 0)"
  by pat_completeness auto
termination
  by (relation "measure (\<lambda>(a, b). a - b)") auto

function exponent_down :: "nat \<Rightarrow> nat \<Rightarrow> nat" where
  "exponent_down a b = (if 0 < a \<and> a < b then Suc (exponent_down (2 * a) b) else 0)"
  by pat_completeness auto
termination
  by (relation "measure (\<lambda>(a, b). b - a)") auto

declare exponent_up.simps [simp del] exponent_down.simps [simp del]

definition true_divide :: "nat \<Rightarrow> nat \<Rightarrow> rat" where
  "true_divide a b =
     (if a = 0 then 0
      else if b \<le> a then
        of_int (round_half_even (int a * 2 ^ 52) (int b * 2 ^ exponent_up a b))
          * 2 ^ exponent_up a b / 2 ^ 52
      else
        of_int (round_half_even (int a * 2 ^ (exponent_down a b + 52)) (int b))
          / 2 ^ (exponent_down a b + 52))"

text \<open>\<^verbatim>\<open>min(1, next_degree / current_degree)\<close>: Python's \<^verbatim>\<open>/\<close> raises on a zero divisor,
  and the comparison of the integer 1 with a floating-point number is exact.\<close>

definition acceptance_ratio :: "nat \<Rightarrow> nat \<Rightarrow> error + rat" where
  "acceptance_ratio next_degree current_degree =
     (if current_degree = 0 then Inl ZeroDivisionError
      else Inr (min 1 (true_divide next_degree current_degree)))"

text \<open>One iteration of \<^verbatim>\<open>metropolis_hastings_sampling\<close> after the dead-end check, lines 27
  to 38: \<open>c\<close> decides \<^verbatim>\<open>random.choice(neighbors)\<close> and \<open>u\<close> is the outcome of
  \<^verbatim>\<open>random.random()\<close>, a floating-point number in \<open>[0, 1)\<close> given by its exact value
  (the comparison \<^verbatim>\<open><\<close> of two floating-point numbers is the comparison of their values). The result is the new current node and
  the new sample.\<close>

definition mh_move :: "'a graph \<Rightarrow> 'a list \<Rightarrow> nat \<times> rat \<Rightarrow> 'a \<Rightarrow> 'a graph \<Rightarrow> error + ('a \<times> 'a graph)" where
  "mh_move G nbrs d current_node sampled_graph =
     (let next_node = choice (fst d) nbrs;
          current_degree = degree G current_node;
          next_degree = degree G next_node
      in case acceptance_ratio next_degree current_degree of
           Inl e \<Rightarrow> Inl e
         | Inr ratio \<Rightarrow>
             if snd d < ratio
             then Inr (next_node, add_edge (add_node sampled_graph next_node) current_node next_node)
             else Inr (current_node, add_node sampled_graph current_node))"

fun mh_loop :: "'a graph \<Rightarrow> (nat \<times> rat) list \<Rightarrow> 'a \<Rightarrow> 'a graph \<Rightarrow> int \<Rightarrow> (error + 'a graph) option" where
  "mh_loop G script current_node sampled_graph num_samples =
     (if int (number_of_nodes sampled_graph) < num_samples then
        (case neighbors G current_node of
           Inl e \<Rightarrow> Some (Inl e)
         | Inr nbrs \<Rightarrow>
             if nbrs = [] then Some (Inr sampled_graph)
             else (case script of
                     [] \<Rightarrow> None
                   | d # script' \<Rightarrow>
                       (case mh_move G nbrs d current_node sampled_graph of
                          Inl e \<Rightarrow> Some (Inl e)
                        | Inr (current_node', sampled_graph') \<Rightarrow>
                            mh_loop G script' current_node' sampled_graph' num_samples)))
      else Some (Inr sampled_graph))"

declare mh_loop.simps [simp del]

definition metropolis_hastings_sampling ::
    "'a graph \<Rightarrow> (nat \<times> rat) list \<Rightarrow> 'a \<Rightarrow> int \<Rightarrow> (error + 'a graph) option" where
  "metropolis_hastings_sampling G script start_node num_samples =
     mh_loop G script start_node (add_node empty_graph start_node) num_samples"




text \<open>A graph is connected when it has a node and every node is reached from every node
  along the adjacency (\<^verbatim>\<open>nx.is_connected\<close>).\<close>

definition adj_rel :: "'a graph \<Rightarrow> ('a \<times> 'a) set" where
  "adj_rel G = {(u, v). v \<in> set (adj G u)}"

definition is_connected :: "'a graph \<Rightarrow> bool" where
  "is_connected G \<longleftrightarrow>
     G \<noteq> [] \<and> (\<forall>u \<in> set (nodes G). \<forall>v \<in> set (nodes G). (u, v) \<in> (adj_rel G)\<^sup>*)"

section \<open>Properties of the random source\<close>

lemma mset_remove_nth:
  "i < length xs \<Longrightarrow> add_mset (xs ! i) (mset (take i xs @ drop (Suc i) xs)) = mset xs"
proof -
  assume "i < length xs"
  then have "xs = take i xs @ xs ! i # drop (Suc i) xs"
    by (rule id_take_nth_drop)
  then have "mset xs = mset (take i xs @ xs ! i # drop (Suc i) xs)"
    by simp
  then show ?thesis by simp
qed

lemma mset_shuffle: "mset (shuffle r xs) = mset xs"
proof (induction r xs rule: shuffle.induct)
  case (1 r xs)
  show ?case
  proof (cases "xs = []")
    case True
    then show ?thesis by (simp add: shuffle.simps)
  next
    case False
    then have lt: "r mod length xs < length xs" by simp
    from False have "mset (shuffle r xs) =
        add_mset (xs ! (r mod length xs))
          (mset (shuffle (r div length xs) (take (r mod length xs) xs @ drop (Suc (r mod length xs)) xs)))"
      by (subst shuffle.simps) simp
    also have "\<dots> = add_mset (xs ! (r mod length xs))
          (mset (take (r mod length xs) xs @ drop (Suc (r mod length xs)) xs))"
      using "1.IH" [OF False] by simp
    also have "\<dots> = mset xs"
      using lt by (rule mset_remove_nth)
    finally show ?thesis .
  qed
qed

lemma set_shuffle: "set (shuffle r xs) = set xs"
  using mset_shuffle [of r xs] by (metis set_mset_mset)

lemma length_shuffle: "length (shuffle r xs) = length xs"
  using mset_shuffle [of r xs] by (metis size_mset)

lemma distinct_shuffle: "distinct (shuffle r xs) = distinct xs"
  using mset_shuffle [of r xs] by (metis mset_eq_imp_distinct_iff)

lemma shuffle_onto: "mset ys = mset xs \<Longrightarrow> \<exists>r. shuffle r xs = ys"
proof (induction ys arbitrary: xs)
  case Nil
  then show ?case by (simp add: shuffle.simps)
next
  case (Cons y ys)
  from Cons.prems have "y \<in> set xs"
    by (metis list.set_intros(1) set_mset_mset)
  then obtain i where i: "i < length xs" "xs ! i = y"
    by (auto simp: in_set_conv_nth)
  let ?rest = "take i xs @ drop (Suc i) xs"
  have "add_mset y (mset ?rest) = mset xs"
    using mset_remove_nth [OF i(1)] i(2) by simp
  with Cons.prems have "add_mset y (mset ys) = add_mset y (mset ?rest)" by simp
  then have "mset ys = mset ?rest" by (simp only: add_mset_add_mset_same_iff)
  from Cons.IH [OF this] obtain r where r: "shuffle r ?rest = ys" by blast
  have ne: "xs \<noteq> []" using i(1) by auto
  let ?r = "i + length xs * r"
  have m: "?r mod length xs = i" using i(1) by simp
  have d: "?r div length xs = r" using i(1) ne by (simp add: div_mult_self2)
  have "shuffle ?r xs = y # ys"
    by (subst shuffle.simps) (simp add: ne d i r)
  then show ?case by blast
qed

section \<open>Example graphs\<close>

text \<open>The path graph and the star graph of the concrete scenarios of the specification.\<close>

definition path5 :: "nat graph" where
  "path5 = [(1, [2]), (2, [1, 3]), (3, [2, 4]), (4, [3, 5]), (5, [4])]"

definition star4 :: "string graph" where
  "star4 = [(''c'', [''a'', ''b'', ''d'']), (''a'', [''c'']), (''b'', [''c'']), (''d'', [''c''])]"


section \<open>Properties of the graph view\<close>

lemma adj_of_entry: "distinct (nodes G) \<Longrightarrow> (u, nbrs) \<in> set G \<Longrightarrow> adj G u = nbrs"
  by (simp add: adj_def nodes_def)

lemma edges_from_subset:
  "(u, v) \<in> set (edges_from seen G) \<Longrightarrow> \<exists>nbrs. (u, nbrs) \<in> set G \<and> v \<in> set nbrs \<and> v \<notin> set seen"
  by (induction seen G rule: edges_from.induct) auto

lemma edges_from_fst:
  "(u, v) \<in> set (edges_from seen G) \<Longrightarrow> u \<in> set (nodes G) \<and> v \<notin> set seen"
  by (induction seen G rule: edges_from.induct) (auto simp: nodes_def)

lemma distinct_edges_from:
  "distinct (nodes G) \<Longrightarrow> \<forall>(u, nbrs) \<in> set G. distinct nbrs \<Longrightarrow> distinct (edges_from seen G)"
proof (induction seen G rule: edges_from.induct)
  case (1 seen)
  then show ?case by simp
next
  case (2 seen n nbrs G)
  have "distinct (map (Pair n) (filter (\<lambda>nbr. nbr \<notin> set seen) nbrs))"
    using 2(3) by (simp add: distinct_map inj_on_def)
  moreover have "distinct (edges_from (n # seen) G)"
    using 2 by (simp add: nodes_def)
  moreover have "set (map (Pair n) (filter (\<lambda>nbr. nbr \<notin> set seen) nbrs)) \<inter> set (edges_from (n # seen) G) = {}"
    using 2(2) edges_from_fst [of _ _ "n # seen" G] by (auto simp: nodes_def)
  ultimately show ?case by simp
qed

lemma edges_from_once:
  "distinct (nodes G) \<Longrightarrow> (u, v) \<in> set (edges_from seen G) \<Longrightarrow> (v, u) \<in> set (edges_from seen G) \<Longrightarrow> u = v"
proof (induction seen G rule: edges_from.induct)
  case (1 seen)
  then show ?case by simp
next
  case (2 seen n nbrs G)
  show ?case
  proof (cases "(u, v) \<in> set (edges_from (n # seen) G)")
    case True
    then have uv: "u \<in> set (nodes G)" "v \<noteq> n"
      using edges_from_fst [of u v "n # seen" G] by auto
    from 2(4) have "(v, u) \<in> set (map (Pair n) (filter (\<lambda>nbr. nbr \<notin> set seen) nbrs))
        \<or> (v, u) \<in> set (edges_from (n # seen) G)" by simp
    with uv(2) have "(v, u) \<in> set (edges_from (n # seen) G)" by auto
    moreover from 2(2) have "distinct (nodes G)" by (simp add: nodes_def)
    ultimately show ?thesis using "2.IH" True by blast
  next
    case False
    with 2(3) have un: "u = n" by auto
    show ?thesis
    proof (cases "(v, u) \<in> set (edges_from (n # seen) G)")
      case True
      then show ?thesis using edges_from_fst [of v u "n # seen" G] un by auto
    next
      case False
      with 2(4) show ?thesis using un by auto
    qed
  qed
qed

lemma wf_graph_entries:
  "wf_graph G \<Longrightarrow> (u, nbrs) \<in> set G \<Longrightarrow> distinct nbrs \<and> adj G u = nbrs"
  by (auto simp: wf_graph_def list_all_iff adj_of_entry)

lemma edges_adj: "wf_graph G \<Longrightarrow> (u, v) \<in> set (edges G) \<Longrightarrow> v \<in> set (adj G u)"
  using edges_from_subset [of u v "[]" G] wf_graph_entries [of G u] by (auto simp: edges_def)

lemma distinct_edges: "wf_graph G \<Longrightarrow> distinct (edges G)"
  unfolding edges_def
  by (rule distinct_edges_from) (auto simp: wf_graph_def list_all_iff)

lemma edges_once: "wf_graph G \<Longrightarrow> (u, v) \<in> set (edges G) \<Longrightarrow> (v, u) \<in> set (edges G) \<Longrightarrow> u = v"
  unfolding edges_def by (rule edges_from_once) (auto simp: wf_graph_def)


lemma slice_to_nonneg: "0 \<le> k \<Longrightarrow> slice_to k xs = take (nat k) xs"
  by (simp add: slice_to_def)

text \<open>
  Claim C5. For a graph \<open>G\<close> and a sample size \<open>k\<close> with \<open>0 \<le> k \<le> |V(G)|\<close>,
  \<^verbatim>\<open>random_node_sampling\<close> returns exactly \<open>k\<close> nodes, pairwise distinct and all
  nodes of \<open>G\<close>, whatever the random source draws; for \<open>k > |V(G)|\<close> it fails with
  \<open>InsufficientPopulation\<close> (the \<^verbatim>\<open>ValueError\<close> of \<^verbatim>\<open>random.sample\<close>) and returns no result.
\<close>

theorem random_node_sampling_exact:
  assumes "wf_graph G"
  shows "(0 \<le> k \<and> k \<le> int (length (nodes G)) \<longrightarrow>
            (\<exists>xs. random_node_sampling G r k = Inr xs \<and> int (length xs) = k \<and>
                  distinct xs \<and> set xs \<subseteq> set (nodes G)))
       \<and> (int (length (nodes G)) < k \<longrightarrow> random_node_sampling G r k = Inl InsufficientPopulation)"
proof (intro conjI impI)
  assume k: "0 \<le> k \<and> k \<le> int (length (nodes G))"
  let ?xs = "take (nat k) (shuffle r (nodes G))"
  have "random_node_sampling G r k = Inr ?xs"
    using k by (simp add: random_node_sampling_def sample_def)
  moreover have "int (length ?xs) = k"
    using k by (auto simp: length_shuffle min_def)
  moreover have "distinct ?xs"
    using assms by (simp add: wf_graph_def distinct_shuffle)
  moreover have "set ?xs \<subseteq> set (nodes G)"
    using set_take_subset [of "nat k" "shuffle r (nodes G)"] by (simp add: set_shuffle)
  ultimately show "\<exists>xs. random_node_sampling G r k = Inr xs \<and> int (length xs) = k \<and>
                  distinct xs \<and> set xs \<subseteq> set (nodes G)"
    by blast
next
  assume "int (length (nodes G)) < k"
  then show "random_node_sampling G r k = Inl InsufficientPopulation"
    by (simp add: random_node_sampling_def sample_def)
qed

lemma wf_path5: "wf_graph path5"
  by (simp add: wf_graph_def path5_def nodes_def adj_def)


lemma sorted_reverse_desc: "sorted_wrt (\<lambda>u v. key v \<le> key u) (sorted_reverse key xs)"
proof -
  have "sorted (map (\<lambda>x. - int (key x)) (sort_key (\<lambda>x. - int (key x)) xs))"
    by (rule sorted_sort_key)
  then show ?thesis
    by (simp add: sorted_reverse_def sorted_map)
qed

lemma set_sorted_reverse: "set (sorted_reverse key xs) = set xs"
  by (simp add: sorted_reverse_def)

lemma length_sorted_reverse: "length (sorted_reverse key xs) = length xs"
  by (simp add: sorted_reverse_def)

text \<open>
  Claim C6, as amended. For a sample size \<open>k \<ge> 0\<close>, \<^verbatim>\<open>degree_based_node_sampling\<close>
  returns \<open>min k |V(G)|\<close> nodes of \<open>G\<close> whose degrees, in the returned order, never
  increase, and every node of \<open>G\<close> that is left out has a degree at most that of every
  returned node, hence at most the least degree returned.
\<close>

theorem degree_based_node_sampling_top:
  assumes "0 \<le> k"
  shows "length (degree_based_node_sampling G k) = min (nat k) (length (nodes G))
       \<and> sorted_wrt (\<lambda>u v. degree G v \<le> degree G u) (degree_based_node_sampling G k)
       \<and> set (degree_based_node_sampling G k) \<subseteq> set (nodes G)
       \<and> (\<forall>u \<in> set (nodes G) - set (degree_based_node_sampling G k).
            \<forall>v \<in> set (degree_based_node_sampling G k). degree G u \<le> degree G v)"
proof -
  let ?s = "sorted_reverse (\<lambda>x. degree G x) (nodes G)"
  have res: "degree_based_node_sampling G k = take (nat k) ?s"
    using assms by (simp add: degree_based_node_sampling_def slice_to_nonneg)
  have srt: "sorted_wrt (\<lambda>u v. degree G v \<le> degree G u) ?s"
    by (rule sorted_reverse_desc)
  have split: "sorted_wrt (\<lambda>u v. degree G v \<le> degree G u) (take (nat k) ?s @ drop (nat k) ?s)"
    using srt by simp
  have "length (take (nat k) ?s) = min (nat k) (length (nodes G))"
    by (simp add: length_sorted_reverse min.commute)
  moreover have "sorted_wrt (\<lambda>u v. degree G v \<le> degree G u) (take (nat k) ?s)"
    using split unfolding sorted_wrt_append by blast
  moreover have "set (take (nat k) ?s) \<subseteq> set (nodes G)"
    using set_take_subset [of "nat k" ?s] by (simp add: set_sorted_reverse)
  moreover have "\<forall>u \<in> set (nodes G) - set (take (nat k) ?s).
            \<forall>v \<in> set (take (nat k) ?s). degree G u \<le> degree G v"
  proof (intro ballI)
    fix u v
    assume u: "u \<in> set (nodes G) - set (take (nat k) ?s)" and v: "v \<in> set (take (nat k) ?s)"
    have "set ?s = set (take (nat k) ?s) \<union> set (drop (nat k) ?s)"
      by (metis append_take_drop_id set_append)
    with u have "u \<in> set (drop (nat k) ?s)"
      by (auto simp: set_sorted_reverse)
    with v split show "degree G u \<le> degree G v"
      unfolding sorted_wrt_append by blast
  qed
  ultimately show ?thesis
    unfolding res by blast
qed

text \<open>
  Claim C7. For a graph \<open>G\<close> and a sample size \<open>k \<ge> 0\<close>, \<^verbatim>\<open>random_edge_sampling\<close>
  always returns a list (the model has no failing branch): the first \<open>k\<close> elements of the
  shuffled list of all edges of \<open>G\<close>, which is a reordering of that list, and all of it when
  \<open>G\<close> has fewer than \<open>k\<close> edges. The shuffle is a real one: the first \<open>k\<close> elements of
  every reordering of the edge list are the result for some outcome of the random source.
  Every returned pair is an edge of \<open>G\<close>, no pair is returned twice, in either direction,
  and the length is \<open>min k |E|\<close>.
\<close>

theorem random_edge_sampling_prefix:
  assumes "wf_graph G" and "0 \<le> k"
  shows "random_edge_sampling G r k = take (nat k) (shuffle r (edges G))
       \<and> mset (shuffle r (edges G)) = mset (edges G)
       \<and> (\<forall>es. mset es = mset (edges G) \<longrightarrow> (\<exists>r'. random_edge_sampling G r' k = take (nat k) es))
       \<and> (length (edges G) < nat k \<longrightarrow> mset (random_edge_sampling G r k) = mset (edges G))
       \<and> (\<forall>(u, v) \<in> set (random_edge_sampling G r k). (u, v) \<in> set (edges G) \<and> v \<in> set (adj G u))
       \<and> distinct (random_edge_sampling G r k)
       \<and> (\<forall>(u, v) \<in> set (random_edge_sampling G r k).
             (v, u) \<in> set (random_edge_sampling G r k) \<longrightarrow> u = v)
       \<and> length (random_edge_sampling G r k) = min (nat k) (length (edges G))"
proof -
  let ?es = "shuffle r (edges G)"
  have res: "random_edge_sampling G r k = take (nat k) (shuffle r (edges G))" for r
    using assms(2) by (simp add: random_edge_sampling_def slice_to_nonneg)
  have sub: "set (take (nat k) ?es) \<subseteq> set (edges G)"
    using set_take_subset [of "nat k" ?es] by (simp add: set_shuffle)
  have onto: "\<forall>es. mset es = mset (edges G) \<longrightarrow> (\<exists>r'. random_edge_sampling G r' k = take (nat k) es)"
  proof (intro allI impI)
    fix es :: "('a \<times> 'a) list"
    assume "mset es = mset (edges G)"
    then obtain r' where "shuffle r' (edges G) = es"
      using shuffle_onto by blast
    then have "random_edge_sampling G r' k = take (nat k) es"
      by (simp add: res)
    then show "\<exists>r'. random_edge_sampling G r' k = take (nat k) es" ..
  qed
  have all: "length (edges G) < nat k \<longrightarrow> mset (take (nat k) ?es) = mset (edges G)"
    by (simp add: length_shuffle mset_shuffle)
  have "\<forall>(u, v) \<in> set (take (nat k) ?es). (u, v) \<in> set (edges G) \<and> v \<in> set (adj G u)"
    using sub edges_adj [OF assms(1)] by blast
  moreover have "distinct (take (nat k) ?es)"
    using distinct_edges [OF assms(1)] by (simp add: distinct_shuffle)
  moreover have "\<forall>(u, v) \<in> set (take (nat k) ?es). (v, u) \<in> set (take (nat k) ?es) \<longrightarrow> u = v"
    using sub edges_once [OF assms(1)] by blast
  moreover have "length (take (nat k) ?es) = min (nat k) (length (edges G))"
    by (simp add: length_shuffle min.commute)
  ultimately show ?thesis
    using onto all mset_shuffle [of r "edges G"] unfolding res [of r] by blast
qed

lemma wf_star4: "wf_graph star4"
  by code_simp

lemma rns_path5: "random_node_sampling path5 7 3 = Inr [3, 2, 1]"
  by code_simp

lemma rns_path5_big: "random_node_sampling path5 7 6 = Inl InsufficientPopulation"
  by code_simp

lemma nodes_path5: "nodes path5 = [1, 2, 3, 4, 5]"
  by code_simp

text \<open>The path graph on the nodes 1 to 5, with sample sizes 3 and 6.\<close>

theorem random_node_sampling_exact_witness:
  "wf_graph path5
   \<and> (0::int) \<le> 3 \<and> (3::int) \<le> int (length (nodes path5))
   \<and> (\<exists>xs. random_node_sampling path5 7 3 = Inr xs \<and> int (length xs) = 3 \<and>
             distinct xs \<and> set xs \<subseteq> set (nodes path5))
   \<and> int (length (nodes path5)) < 6
   \<and> random_node_sampling path5 7 6 = Inl InsufficientPopulation"
  using random_node_sampling_exact [OF wf_path5, of 3 7] random_node_sampling_exact [OF wf_path5, of 6 7]
    wf_path5
  by (simp add: nodes_path5)


lemma dbs_star4_1: "degree_based_node_sampling star4 1 = [''c'']"
  by code_simp

lemma dbs_star4_5: "degree_based_node_sampling star4 5 = [''c'', ''a'', ''b'', ''d'']"
  by code_simp

lemma nodes_star4: "nodes star4 = [''c'', ''a'', ''b'', ''d'']"
  by code_simp

text \<open>The star with centre \<open>c\<close> and leaves \<open>a\<close>, \<open>b\<close>, \<open>d\<close>: the top node is \<open>c\<close>.\<close>

theorem degree_based_node_sampling_top_witness:
  "(0::int) \<le> 1
   \<and> degree_based_node_sampling star4 1 = [''c'']
   \<and> length (degree_based_node_sampling star4 1) = min (nat 1) (length (nodes star4))
   \<and> set (degree_based_node_sampling star4 1) \<subseteq> set (nodes star4)"
  using degree_based_node_sampling_top [of 1 star4]
  by (simp add: dbs_star4_1)

text \<open>Claim C6 as stated says that \<open>k\<close> nodes are returned. On the star of four
  nodes and \<open>k = 5\<close> the slice returns the four nodes there are.\<close>

theorem degree_based_node_sampling_count_counterexample:
  "length (degree_based_node_sampling star4 5) = 4 \<and> length (degree_based_node_sampling star4 5) \<noteq> 5"
  by (simp add: dbs_star4_5)

lemma res_path5_3: "random_edge_sampling path5 5 3 = [(2, 3), (3, 4), (1, 2)]"
  by code_simp

lemma edges_path5: "edges path5 = [(1, 2), (2, 3), (3, 4), (4, 5)]"
  by code_simp

lemma res_path5_10: "random_edge_sampling path5 5 10 = [(2, 3), (3, 4), (1, 2), (4, 5)]"
  by code_simp

lemma shuffle_edges_path5: "shuffle 5 (edges path5) = [(2, 3), (3, 4), (1, 2), (4, 5)]"
  by code_simp

text \<open>The path graph on the nodes 1 to 5, with sample sizes 3 and 10, and the edge list in
  reverse as one of the reorderings.\<close>

theorem random_edge_sampling_prefix_witness:
  "wf_graph path5 \<and> (0::int) \<le> 3
   \<and> random_edge_sampling path5 5 3 = [(2, 3), (3, 4), (1, 2)]
   \<and> shuffle 5 (edges path5) = [(2, 3), (3, 4), (1, 2), (4, 5)]
   \<and> mset [(4, 5), (3, 4), (2, 3), (1, 2)] = mset (edges path5)
   \<and> (\<exists>r'. random_edge_sampling path5 r' 3 = [(4, 5), (3, 4), (2, 3)])
   \<and> length (edges path5) < nat 10
   \<and> random_edge_sampling path5 5 10 = [(2, 3), (3, 4), (1, 2), (4, 5)]
   \<and> (2, 3) \<in> set (edges path5) \<and> 3 \<in> set (adj path5 2)
   \<and> distinct (random_edge_sampling path5 5 3)
   \<and> length (random_edge_sampling path5 5 3) = min (nat 3) (length (edges path5))
   \<and> length (random_edge_sampling path5 5 10) = min (nat 10) (length (edges path5))"
proof -
  have k3: "(0 :: int) \<le> 3" and k10: "(0 :: int) \<le> 10"
    by simp_all
  note t3 = random_edge_sampling_prefix [OF wf_path5 k3, where r = 5]
  note t10 = random_edge_sampling_prefix [OF wf_path5 k10, where r = 5]
  have rev: "mset [(4, 5), (3, 4), (2, 3), (1, 2)] = mset (edges path5)"
    by (simp add: edges_path5)
  from t3 have "\<forall>es. mset es = mset (edges path5) \<longrightarrow>
      (\<exists>r'. random_edge_sampling path5 r' 3 = take (nat 3) es)"
    by blast
  with rev have "\<exists>r'. random_edge_sampling path5 r' 3 = take (nat 3) [(4, 5), (3, 4), (2, 3), (1, 2)]"
    by blast
  then have ex: "\<exists>r'. random_edge_sampling path5 r' 3 = [(4 :: nat, 5 :: nat), (3, 4), (2, 3)]"
    by (simp add: numeral_3_eq_3)
  have lt: "length (edges path5) < nat 10"
    by (simp add: edges_path5)
  from t3 have mem: "\<forall>(u, v) \<in> set (random_edge_sampling path5 5 3).
      (u, v) \<in> set (edges path5) \<and> v \<in> set (adj path5 u)"
    by blast
  have "(2, 3) \<in> set (edges path5) \<and> 3 \<in> set (adj path5 2)"
    using mem by (simp add: res_path5_3)
  moreover from t3 have "distinct (random_edge_sampling path5 5 3)"
    "length (random_edge_sampling path5 5 3) = min (nat 3) (length (edges path5))"
    by blast+
  moreover from t10 have "length (random_edge_sampling path5 5 10) = min (nat 10) (length (edges path5))"
    by blast
  ultimately show ?thesis
    using wf_path5 res_path5_3 res_path5_10 shuffle_edges_path5 rev ex lt by simp
qed

text \<open>All pairs (node, neighbour) of the adjacency lists, each undirected edge from both ends.\<close>

definition all_pairs :: "'a graph \<Rightarrow> ('a \<times> 'a) list" where
  "all_pairs G = concat (map (\<lambda>(u, nbrs). map (Pair u) nbrs) G)"

lemma length_all_pairs: "length (all_pairs G) = sum_list (map (\<lambda>(u, nbrs). length nbrs) G)"
  by (induction G) (auto simp: all_pairs_def)

lemma set_all_pairs: "set (all_pairs G) = {(u, v). \<exists>nbrs. (u, nbrs) \<in> set G \<and> v \<in> set nbrs}"
  by (auto simp: all_pairs_def)

lemma distinct_all_pairs:
  "distinct (map fst G) \<Longrightarrow> \<forall>(u, nbrs) \<in> set G. distinct nbrs \<Longrightarrow> distinct (all_pairs G)"
proof (induction G)
  case Nil
  then show ?case by (simp add: all_pairs_def)
next
  case (Cons a G)
  obtain n nbrs where a: "a = (n, nbrs)" by (cases a)
  have "distinct (map (Pair n) nbrs)"
    using Cons.prems(2) a by (simp add: distinct_map inj_on_def)
  moreover have "distinct (all_pairs G)"
    using Cons by simp
  moreover have "set (map (Pair n) nbrs) \<inter> set (all_pairs G) = {}"
    using Cons.prems(1) a by (force simp: set_all_pairs)
  ultimately show ?case
    using a by (simp add: all_pairs_def)
qed

lemma edges_from_cover:
  assumes "distinct (map fst G)"
    and "set seen \<inter> fst ` set G = {}"
    and "\<forall>(u, nbrs) \<in> set G. \<forall>v \<in> set nbrs. v \<in> set seen \<or> (\<exists>nbrs'. (v, nbrs') \<in> set G \<and> u \<in> set nbrs')"
    and "(u, nbrs) \<in> set G" and "v \<in> set nbrs" and "v \<notin> set seen"
  shows "(u, v) \<in> set (edges_from seen G) \<or> (v, u) \<in> set (edges_from seen G)"
  using assms
proof (induction seen G rule: edges_from.induct)
  case (1 seen)
  then show ?case by simp
next
  case (2 seen n nbrs0 G)
  show ?case
  proof (cases "u = n")
    case True
    with "2.prems"(1,4) have "nbrs = nbrs0"
      by (auto simp: rev_image_eqI)
    with True "2.prems"(5,6) show ?thesis by simp
  next
    case un: False
    with "2.prems"(4) have inG: "(u, nbrs) \<in> set G" by simp
    show ?thesis
    proof (cases "v = n")
      case True
      from "2.prems"(3) inG "2.prems"(5,6) obtain nbrs' where
        n': "(v, nbrs') \<in> set ((n, nbrs0) # G)" "u \<in> set nbrs'"
        by fastforce
      with True "2.prems"(1) have "nbrs' = nbrs0"
        by (auto simp: rev_image_eqI)
      moreover have "u \<notin> set seen"
        using "2.prems"(2) inG by (force simp: rev_image_eqI)
      ultimately show ?thesis using n'(2) True by simp
    next
      case vn: False
      have d: "distinct (map fst G)" using "2.prems"(1) by simp
      have s: "set (n # seen) \<inter> fst ` set G = {}"
        using "2.prems"(1,2) by auto
      have c: "\<forall>(u, nbrs) \<in> set G. \<forall>v \<in> set nbrs. v \<in> set (n # seen) \<or>
          (\<exists>nbrs'. (v, nbrs') \<in> set G \<and> u \<in> set nbrs')"
        using "2.prems"(3) by fastforce
      have "v \<notin> set (n # seen)" using vn "2.prems"(6) by simp
      from "2.IH" [OF d s c inG "2.prems"(5) this] show ?thesis by auto
    qed
  qed
qed


lemma wf_graph_sym:
  assumes "wf_graph G" and "(u, nbrs) \<in> set G" and "v \<in> set nbrs"
  shows "\<exists>nbrs'. (v, nbrs') \<in> set G \<and> u \<in> set nbrs'"
proof -
  from assms have v: "v \<in> set (nodes G)" and u: "u \<in> set (adj G v)"
    by (auto simp: wf_graph_def list_all_iff)
  from v obtain nbrs' where n: "(v, nbrs') \<in> set G"
    by (auto simp: nodes_def)
  with assms(1) have "adj G v = nbrs'"
    by (simp add: wf_graph_entries)
  with u n show ?thesis by auto
qed

lemma pairs_le_two_edges:
  assumes "wf_graph G"
  shows "length (all_pairs G) \<le> 2 * length (edges G)"
proof -
  have d: "distinct (map fst G)"
    using assms by (simp add: wf_graph_def nodes_def)
  have dn: "\<forall>(u, nbrs) \<in> set G. distinct nbrs"
    using assms by (auto simp: wf_graph_def list_all_iff)
  have c: "\<forall>(u, nbrs) \<in> set G. \<forall>v \<in> set nbrs. v \<in> set [] \<or>
      (\<exists>nbrs'. (v, nbrs') \<in> set G \<and> u \<in> set nbrs')"
    using wf_graph_sym [OF assms] by blast
  have sub: "set (all_pairs G) \<subseteq> set (edges G) \<union> prod.swap ` set (edges G)"
  proof
    fix p assume "p \<in> set (all_pairs G)"
    then obtain u v nbrs where p: "p = (u, v)" "(u, nbrs) \<in> set G" "v \<in> set nbrs"
      by (auto simp: set_all_pairs)
    have "(u, v) \<in> set (edges_from [] G) \<or> (v, u) \<in> set (edges_from [] G)"
      by (rule edges_from_cover [OF d _ c p(2) p(3)]) simp_all
    then show "p \<in> set (edges G) \<union> prod.swap ` set (edges G)"
      using p(1) by (force simp: edges_def)
  qed
  have "length (all_pairs G) = card (set (all_pairs G))"
    using distinct_all_pairs [OF d dn] by (simp add: distinct_card)
  also have "\<dots> \<le> card (set (edges G) \<union> prod.swap ` set (edges G))"
    using sub by (simp add: card_mono)
  also have "\<dots> \<le> card (set (edges G)) + card (prod.swap ` set (edges G))"
    by (rule card_Un_le)
  also have "\<dots> \<le> card (set (edges G)) + card (set (edges G))"
    by (simp add: card_image_le)
  also have "\<dots> \<le> 2 * length (edges G)"
    using card_length [of "edges G"] by simp
  finally show ?thesis .
qed

lemma ies_neighbors_props:
  assumes "ies_neighbors node nbrs sampled k = (es, returned)"
  shows "set es \<subseteq> set sampled \<union> Pair node ` set nbrs"
    and "length es \<le> length sampled + length nbrs"
    and "int (length es) \<le> max (int (length sampled)) k"
  using assms
  by (induction node nbrs sampled k rule: ies_neighbors.induct) (auto split: if_splits)


lemma neighbors_node: "n \<in> set (nodes G) \<Longrightarrow> neighbors G n = Inr (adj G n)"
  by (auto simp: neighbors_def adj_def nodes_def map_of_eq_None_iff split: option.splits)

lemma ies_nodes_props:
  assumes "set ns \<subseteq> set (nodes G)"
  shows "\<exists>es. ies_nodes G rs ns sampled k = Inr es
       \<and> set es \<subseteq> set sampled \<union> {(u, v). u \<in> set ns \<and> v \<in> set (adj G u)}
       \<and> length es \<le> length sampled + sum_list (map (\<lambda>u. length (adj G u)) ns)
       \<and> int (length es) \<le> max (int (length sampled)) k"
  using assms
proof (induction ns arbitrary: rs sampled)
  case Nil
  then show ?case by simp
next
  case (Cons node rest)
  have nb: "neighbors G node = Inr (adj G node)"
    using Cons.prems by (simp add: neighbors_node)
  obtain es1 returned where
    inner: "ies_neighbors node (shuffle (fst (draw rs)) (adj G node)) sampled k = (es1, returned)"
    by (cases "ies_neighbors node (shuffle (fst (draw rs)) (adj G node)) sampled k")
  note p = ies_neighbors_props [OF inner]
  have p1: "set es1 \<subseteq> set sampled \<union> Pair node ` set (adj G node)"
    using p(1) by (simp add: set_shuffle)
  have p2: "length es1 \<le> length sampled + length (adj G node)"
    using p(2) by (simp add: length_shuffle)
  show ?case
  proof (cases returned)
    case True
    then have "ies_nodes G rs (node # rest) sampled k = Inr es1"
      by (simp add: nb inner)
    moreover have "set es1 \<subseteq> set sampled \<union> {(u, v). u \<in> set (node # rest) \<and> v \<in> set (adj G u)}"
      using p1 by auto
    moreover have "length es1 \<le> length sampled + sum_list (map (\<lambda>u. length (adj G u)) (node # rest))"
      using p2 by simp
    ultimately show ?thesis using p(3) by blast
  next
    case False
    from Cons.prems have "set rest \<subseteq> set (nodes G)" by simp
    from Cons.IH [OF this, of "snd (draw rs)" es1] obtain es where
      es: "ies_nodes G (snd (draw rs)) rest es1 k = Inr es"
        "set es \<subseteq> set es1 \<union> {(u, v). u \<in> set rest \<and> v \<in> set (adj G u)}"
        "length es \<le> length es1 + sum_list (map (\<lambda>u. length (adj G u)) rest)"
        "int (length es) \<le> max (int (length es1)) k"
      by blast
    have "ies_nodes G rs (node # rest) sampled k = Inr es"
      using False es(1) by (simp add: nb inner)
    moreover have "set es \<subseteq> set sampled \<union> {(u, v). u \<in> set (node # rest) \<and> v \<in> set (adj G u)}"
      using es(2) p1 by auto
    moreover have "length es \<le> length sampled + sum_list (map (\<lambda>u. length (adj G u)) (node # rest))"
      using es(3) p2 by simp
    moreover have "int (length es) \<le> max (int (length sampled)) k"
      using es(4) p(3) by linarith
    ultimately show ?thesis by blast
  qed
qed

lemma sum_adj_nodes:
  "distinct (nodes G) \<Longrightarrow> sum_list (map (\<lambda>u. length (adj G u)) (nodes G)) = length (all_pairs G)"
proof -
  assume d: "distinct (nodes G)"
  have "map (\<lambda>u. length (adj G u)) (nodes G) = map (\<lambda>(u, nbrs). length nbrs) G"
    unfolding nodes_def map_map
    by (rule map_cong) (auto simp: adj_of_entry [OF d])
  then show ?thesis by (simp add: length_all_pairs)
qed

lemma sum_list_shuffle:
  "sum_list (map (f :: 'a \<Rightarrow> nat) (shuffle r xs)) = sum_list (map f xs)"
proof -
  have "mset (map f (shuffle r xs)) = mset (map f xs)"
    by (simp add: mset_shuffle)
  then show ?thesis by (metis sum_mset_sum_list)
qed

lemma ies_path5: "induced_edge_sampling path5 [] 10 = Inr [(1, 2), (2, 1), (2, 3), (3, 2), (3, 4), (4, 3), (4, 5), (5, 4)]"
  by code_simp

text \<open>
  Claim C8. For a graph \<open>G\<close> and a sample size \<open>k \<ge> 0\<close>, \<^verbatim>\<open>induced_edge_sampling\<close>
  returns a list of pairs \<open>(u, v)\<close> in which \<open>v\<close> is a neighbour of the node \<open>u\<close>, of
  length at most \<open>min k (2 |E|)\<close>, whatever the shuffles are. An undirected edge may
  appear twice, once in each direction: on the path graph both \<open>(1, 2)\<close> and \<open>(2, 1)\<close>
  are returned.
\<close>

theorem induced_edge_sampling_pairs:
  assumes "wf_graph G" and "0 \<le> k"
  shows "(\<exists>es. induced_edge_sampling G rs k = Inr es
          \<and> (\<forall>(u, v) \<in> set es. u \<in> set (nodes G) \<and> v \<in> set (adj G u))
          \<and> int (length es) \<le> min k (2 * int (length (edges G))))
       \<and> (\<exists>rs' k' es'. induced_edge_sampling path5 rs' k' = Inr es'
          \<and> (1, 2) \<in> set es' \<and> (2, 1) \<in> set es')"
proof
  let ?ns = "shuffle (fst (draw rs)) (nodes G)"
  have d: "distinct (nodes G)" using assms(1) by (simp add: wf_graph_def)
  have "set ?ns \<subseteq> set (nodes G)" by (simp add: set_shuffle)
  from ies_nodes_props [OF this, of "snd (draw rs)" "[]" k] obtain es where
    es: "ies_nodes G (snd (draw rs)) ?ns [] k = Inr es"
      "set es \<subseteq> set [] \<union> {(u, v). u \<in> set ?ns \<and> v \<in> set (adj G u)}"
      "length es \<le> length ([] :: ('a \<times> 'a) list) + sum_list (map (\<lambda>u. length (adj G u)) ?ns)"
      "int (length es) \<le> max (int (length ([] :: ('a \<times> 'a) list))) k"
    by blast
  have "induced_edge_sampling G rs k = Inr es"
    using es(1) by (simp add: induced_edge_sampling_def)
  moreover have "\<forall>(u, v) \<in> set es. u \<in> set (nodes G) \<and> v \<in> set (adj G u)"
    using es(2) by (auto simp: set_shuffle)
  moreover have "int (length es) \<le> min k (2 * int (length (edges G)))"
  proof -
    have "length es \<le> length (all_pairs G)"
      using es(3) by (simp add: sum_list_shuffle sum_adj_nodes [OF d])
    also have "\<dots> \<le> 2 * length (edges G)"
      by (rule pairs_le_two_edges [OF assms(1)])
    finally have "int (length es) \<le> 2 * int (length (edges G))" by simp
    moreover have "int (length es) \<le> k" using es(4) assms(2) by simp
    ultimately show ?thesis by simp
  qed
  ultimately show "\<exists>es. induced_edge_sampling G rs k = Inr es
          \<and> (\<forall>(u, v) \<in> set es. u \<in> set (nodes G) \<and> v \<in> set (adj G u))
          \<and> int (length es) \<le> min k (2 * int (length (edges G)))"
    by blast
next
  show "\<exists>rs' k' es'. induced_edge_sampling path5 rs' k' = Inr es'
          \<and> (1, 2) \<in> set es' \<and> (2, 1) \<in> set es'"
    using ies_path5 by fastforce
qed

text \<open>The path graph on the nodes 1 to 5 with its 4 edges and \<open>k = 10\<close>: 8 pairs.\<close>

theorem induced_edge_sampling_pairs_witness:
  "wf_graph path5 \<and> (0::int) \<le> 10
   \<and> induced_edge_sampling path5 [] 10 =
       Inr [(1, 2), (2, 1), (2, 3), (3, 2), (3, 4), (4, 3), (4, 5), (5, 4)]
   \<and> (\<exists>es. induced_edge_sampling path5 [] 10 = Inr es
          \<and> int (length es) \<le> min 10 (2 * int (length (edges path5))))"
  using induced_edge_sampling_pairs [OF wf_path5, of 10 "[]"] wf_path5 ies_path5
  by auto

lemma map_of_None_nodes: "(map_of G n = None) = (n \<notin> set (nodes G))"
  by (simp add: map_of_eq_None_iff nodes_def)

lemma map_of_Some_nodes: "map_of G n = Some x \<Longrightarrow> n \<in> set (nodes G)"
  using map_of_None_nodes [of G n] by auto

lemma nodes_add_node: "set (nodes (add_node G n)) = insert n (set (nodes G))"
  by (auto simp: add_node_def nodes_def)

lemma map_of_add_node: "map_of (add_node G n) w = (if w = n \<and> n \<notin> set (nodes G) then Some [] else map_of G w)"
  using map_of_None_nodes [of G w] map_of_None_nodes [of G n]
  by (auto simp: add_node_def map_add_def split: option.splits)

lemma adj_add_node: "adj (add_node G n) w = adj G w"
  using map_of_None_nodes [of G n]
  by (auto simp: adj_def map_of_add_node split: option.splits)

lemma nodes_add_nbr: "nodes (add_nbr G u v) = nodes G"
  by (induction G) (auto simp: add_nbr_def nodes_def)

lemma map_of_add_nbr:
  "map_of (add_nbr G u v) w =
     map_option (\<lambda>nbrs. if w = u then (if v \<in> set nbrs then nbrs else nbrs @ [v]) else nbrs) (map_of G w)"
  by (induction G) (auto simp: add_nbr_def)

lemma set_adj_add_nbr:
  "set (adj (add_nbr G u v) w) = set (adj G w) \<union> (if w = u \<and> u \<in> set (nodes G) then {v} else {})"
  using map_of_None_nodes [of G w]
  by (cases "map_of G w") (auto simp: adj_def map_of_add_nbr)

lemma nodes_add_edge: "set (nodes (add_edge G u v)) = insert u (insert v (set (nodes G)))"
  by (auto simp: add_edge_def nodes_add_nbr nodes_add_node)

lemma set_adj_add_edge:
  "set (adj (add_edge G u v) w) =
     set (adj G w) \<union> (if w = u then {v} else {}) \<union> (if w = v then {u} else {})"
  by (auto simp: add_edge_def set_adj_add_nbr nodes_add_nbr nodes_add_node adj_add_node)

lemma adj_rel_add_node: "adj_rel (add_node G n) = adj_rel G"
  by (simp add: adj_rel_def adj_add_node)

lemma adj_rel_add_edge: "adj_rel (add_edge G u v) = adj_rel G \<union> {(u, v), (v, u)}"
  by (auto simp: adj_rel_def set_adj_add_edge split: if_splits)

text \<open>The invariant of the two walks: the start node is in the sample, the adjacency of the sample is symmetric and every node of the sample is reached from the start node.\<close>

definition reach_inv :: "'a \<Rightarrow> 'a graph \<Rightarrow> bool" where
  "reach_inv start S \<longleftrightarrow>
     start \<in> set (nodes S) \<and> sym (adj_rel S) \<and> (\<forall>v \<in> set (nodes S). (start, v) \<in> (adj_rel S)\<^sup>*)"

lemma reach_inv_start: "reach_inv start (add_node empty_graph start)"
  by (simp add: reach_inv_def add_node_def empty_graph_def nodes_def adj_rel_def adj_def sym_def)

lemma reach_inv_add_node: "reach_inv start S \<Longrightarrow> cur \<in> set (nodes S) \<Longrightarrow> reach_inv start (add_node S cur)"
  by (simp add: add_node_def)

lemma reach_inv_add_edge:
  assumes "reach_inv start S" and "cur \<in> set (nodes S)"
  shows "reach_inv start (add_edge (add_node S nxt) cur nxt)"
proof -
  let ?S = "add_edge (add_node S nxt) cur nxt"
  have rel: "adj_rel ?S = adj_rel S \<union> {(cur, nxt), (nxt, cur)}"
    by (simp add: adj_rel_add_edge adj_rel_add_node)
  have nd: "set (nodes ?S) = insert nxt (set (nodes S))"
    using assms(2) by (auto simp: nodes_add_edge nodes_add_node)
  have mono: "(adj_rel S)\<^sup>* \<subseteq> (adj_rel ?S)\<^sup>*"
    unfolding rel by (rule rtrancl_mono) auto
  have "start \<in> set (nodes ?S)"
    using assms(1) nd by (simp add: reach_inv_def)
  moreover have "sym (adj_rel ?S)"
    using assms(1) unfolding rel reach_inv_def sym_def by auto
  moreover have "\<forall>v \<in> set (nodes ?S). (start, v) \<in> (adj_rel ?S)\<^sup>*"
  proof
    fix v assume "v \<in> set (nodes ?S)"
    then consider "v \<in> set (nodes S)" | "v = nxt" using nd by auto
    then show "(start, v) \<in> (adj_rel ?S)\<^sup>*"
    proof cases
      case 1
      then show ?thesis using assms(1) mono by (auto simp: reach_inv_def)
    next
      case 2
      have "(start, cur) \<in> (adj_rel ?S)\<^sup>*"
        using assms mono by (auto simp: reach_inv_def)
      moreover have "(cur, nxt) \<in> adj_rel ?S" unfolding rel by simp
      ultimately show ?thesis using 2 by (simp add: rtrancl_into_rtrancl)
    qed
  qed
  ultimately show ?thesis by (simp add: reach_inv_def)
qed

lemma reach_inv_connected:
  assumes "reach_inv start S"
  shows "is_connected S"
proof -
  have ne: "S \<noteq> []" using assms by (auto simp: reach_inv_def nodes_def)
  have s: "sym ((adj_rel S)\<^sup>*)"
    using assms by (simp add: reach_inv_def sym_rtrancl)
  have "\<forall>u \<in> set (nodes S). \<forall>v \<in> set (nodes S). (u, v) \<in> (adj_rel S)\<^sup>*"
  proof (intro ballI)
    fix u v assume u: "u \<in> set (nodes S)" and v: "v \<in> set (nodes S)"
    have "(start, u) \<in> (adj_rel S)\<^sup>*" using assms u by (simp add: reach_inv_def)
    then have "(u, start) \<in> (adj_rel S)\<^sup>*" using s by (simp add: sym_def)
    moreover have "(start, v) \<in> (adj_rel S)\<^sup>*" using assms v by (simp add: reach_inv_def)
    ultimately show "(u, v) \<in> (adj_rel S)\<^sup>*" by simp
  qed
  with ne show ?thesis by (simp add: is_connected_def)
qed

lemma neighbors_adj: "neighbors G n = Inr nbrs \<Longrightarrow> adj G n = nbrs"
  by (auto simp: neighbors_def adj_def split: option.splits)

lemma degree_pos: "neighbors G n = Inr nbrs \<Longrightarrow> nbrs \<noteq> [] \<Longrightarrow> 0 < degree G n"
  by (auto simp: degree_def dest: neighbors_adj)

lemma mh_move_cases:
  assumes "neighbors G cur = Inr nbrs" and "nbrs \<noteq> []"
  shows "mh_move G nbrs d cur S =
     (if snd d < min 1 (true_divide (degree G (choice (fst d) nbrs)) (degree G cur))
      then Inr (choice (fst d) nbrs, add_edge (add_node S (choice (fst d) nbrs)) cur (choice (fst d) nbrs))
      else Inr (cur, add_node S cur))"
  using degree_pos [OF assms] by (simp add: mh_move_def acceptance_ratio_def Let_def)


lemma mh_loop_inv:
  "reach_inv start S \<Longrightarrow> cur \<in> set (nodes S) \<Longrightarrow> mh_loop G script cur S n = Some (Inr S')
     \<Longrightarrow> reach_inv start S'"
proof (induction script arbitrary: cur S)
  case Nil
  then show ?case
    by (subst (asm) mh_loop.simps) (auto split: if_splits sum.splits)
next
  case (Cons d script)
  show ?case
  proof (cases "int (number_of_nodes S) < n")
    case False
    with Cons.prems show ?thesis by (subst (asm) mh_loop.simps) simp
  next
    case lt: True
    show ?thesis
    proof (cases "neighbors G cur")
      case (Inl e)
      with Cons.prems lt show ?thesis by (subst (asm) mh_loop.simps) simp
    next
      case (Inr nbrs)
      show ?thesis
      proof (cases "nbrs = []")
        case True
        with Cons.prems lt Inr show ?thesis by (subst (asm) mh_loop.simps) simp
      next
        case ne: False
        let ?nxt = "choice (fst d) nbrs"
        show ?thesis
        proof (cases "snd d < min 1 (true_divide (degree G ?nxt) (degree G cur))")
          case True
          have mv: "mh_move G nbrs d cur S = Inr (?nxt, add_edge (add_node S ?nxt) cur ?nxt)"
            by (simp only: mh_move_cases [OF Inr ne] True if_True)
          have run: "mh_loop G script ?nxt (add_edge (add_node S ?nxt) cur ?nxt) n = Some (Inr S')"
            using Cons.prems(3) lt Inr ne mv by (subst (asm) mh_loop.simps) simp
          have "reach_inv start (add_edge (add_node S ?nxt) cur ?nxt)"
            using Cons.prems(1,2) by (rule reach_inv_add_edge)
          moreover have "?nxt \<in> set (nodes (add_edge (add_node S ?nxt) cur ?nxt))"
            by (simp add: nodes_add_edge)
          ultimately show ?thesis using run by (rule Cons.IH)
        next
          case False
          have mv: "mh_move G nbrs d cur S = Inr (cur, add_node S cur)"
            by (simp only: mh_move_cases [OF Inr ne] False if_False)
          have run: "mh_loop G script cur (add_node S cur) n = Some (Inr S')"
            using Cons.prems(3) lt Inr ne mv by (subst (asm) mh_loop.simps) simp
          have "reach_inv start (add_node S cur)"
            using Cons.prems(1,2) by (rule reach_inv_add_node)
          moreover have "cur \<in> set (nodes (add_node S cur))"
            by (simp add: nodes_add_node)
          ultimately show ?thesis using run by (rule Cons.IH)
        qed
      qed
    qed
  qed
qed

lemma mh_loop_no_zero_division:
  "mh_loop G script cur S n \<noteq> Some (Inl ZeroDivisionError)"
proof (induction script arbitrary: cur S)
  case Nil
  show ?case
    by (subst mh_loop.simps) (auto simp: neighbors_def split: sum.splits option.splits)
next
  case (Cons d script)
  show ?case
  proof (cases "neighbors G cur")
    case (Inl e)
    then have "e = NodeNotInGraph"
      by (auto simp: neighbors_def split: option.splits)
    with Inl show ?thesis by (subst mh_loop.simps) simp
  next
    case (Inr nbrs)
    show ?thesis
    proof (cases "nbrs = []")
      case True
      with Inr show ?thesis by (subst mh_loop.simps) simp
    next
      case False
      let ?nxt = "choice (fst d) nbrs"
      show ?thesis
      proof (cases "snd d < min 1 (true_divide (degree G ?nxt) (degree G cur))")
        case True
        have mv: "mh_move G nbrs d cur S = Inr (?nxt, add_edge (add_node S ?nxt) cur ?nxt)"
          by (simp only: mh_move_cases [OF Inr False] True if_True)
        show ?thesis
          using Cons.IH [of ?nxt "add_edge (add_node S ?nxt) cur ?nxt"]
          by (subst mh_loop.simps) (simp add: Inr False mv)
      next
        case rej: False
        have mv: "mh_move G nbrs d cur S = Inr (cur, add_node S cur)"
          by (simp only: mh_move_cases [OF Inr False] rej if_False)
        show ?thesis
          using Cons.IH [of cur "add_node S cur"]
          by (subst mh_loop.simps) (simp add: Inr False mv)
      qed
    qed
  qed
qed

lemma mh_loop_rejected:
  assumes "int (number_of_nodes S) < n" and "neighbors G cur = Inr nbrs" and "nbrs \<noteq> []"
    and "\<not> u < min 1 (true_divide (degree G (choice c nbrs)) (degree G cur))"
  shows "mh_move G nbrs (c, u) cur S = Inr (cur, add_node S cur)"
    and "mh_loop G ((c, u) # script) cur S n = mh_loop G script cur (add_node S cur) n"
proof -
  have "mh_move G nbrs (c, u) cur S =
     (if u < min 1 (true_divide (degree G (choice c nbrs)) (degree G cur))
      then Inr (choice c nbrs, add_edge (add_node S (choice c nbrs)) cur (choice c nbrs))
      else Inr (cur, add_node S cur))"
    using mh_move_cases [OF assms(2,3), of "(c, u)" S] by (simp only: fst_conv snd_conv)
  then show mv: "mh_move G nbrs (c, u) cur S = Inr (cur, add_node S cur)"
    by (simp only: assms(4) if_False)
  show "mh_loop G ((c, u) # script) cur S n = mh_loop G script cur (add_node S cur) n"
    by (subst mh_loop.simps) (simp add: assms(1,2,3) mv)
qed

text \<open>The triangle 1, 2, 3 with the pendant node 4 at node 1: node 1 has degree 3 and its
  neighbour 2 has degree 2.\<close>

definition paw :: "nat graph" where
  "paw = [(1, [2, 3, 4]), (2, [1, 3]), (3, [1, 2]), (4, [1])]"

text \<open>
  Claim C1. In an iteration of the loop of \<^verbatim>\<open>metropolis_hastings_sampling\<close> (the sample is
  below the target) that has passed the dead-end check (the current node has the
  neighbours \<open>nbrs\<close>, not empty), the degree of the current node is positive, so the
  acceptance ratio is computed without a division by zero. When the draw \<open>u\<close> of the
  iteration rejects the move (\<open>u\<close> is not below the ratio, a floating-point number), the
  loop goes on with the draws that are left from the same current node: the walk has not
  advanced, and the sample was only given the current node again, which changes nothing when
  the node is in the sample. No run of the sampling ends in \<open>ZeroDivisionError\<close>.
\<close>

theorem metropolis_hastings_rejection:
  assumes "int (number_of_nodes S) < n" and "neighbors G cur = Inr nbrs" and "nbrs \<noteq> []"
  shows "0 < degree G cur
       \<and> acceptance_ratio (degree G (choice c nbrs)) (degree G cur) =
           Inr (min 1 (true_divide (degree G (choice c nbrs)) (degree G cur)))
       \<and> (\<not> u < min 1 (true_divide (degree G (choice c nbrs)) (degree G cur)) \<longrightarrow>
            mh_move G nbrs (c, u) cur S = Inr (cur, add_node S cur)
            \<and> mh_loop G ((c, u) # script) cur S n = mh_loop G script cur (add_node S cur) n)
       \<and> (cur \<in> set (nodes S) \<longrightarrow> add_node S cur = S)
       \<and> metropolis_hastings_sampling G script start n \<noteq> Some (Inl ZeroDivisionError)"
proof -
  have pos: "0 < degree G cur"
    using assms(2,3) by (rule degree_pos)
  have "acceptance_ratio (degree G (choice c nbrs)) (degree G cur) =
           Inr (min 1 (true_divide (degree G (choice c nbrs)) (degree G cur)))"
    using pos by (simp add: acceptance_ratio_def)
  moreover have "\<not> u < min 1 (true_divide (degree G (choice c nbrs)) (degree G cur)) \<longrightarrow>
            mh_move G nbrs (c, u) cur S = Inr (cur, add_node S cur)
            \<and> mh_loop G ((c, u) # script) cur S n = mh_loop G script cur (add_node S cur) n"
    using mh_loop_rejected [OF assms] by blast
  moreover have "cur \<in> set (nodes S) \<longrightarrow> add_node S cur = S"
    by (simp add: add_node_def)
  moreover have "metropolis_hastings_sampling G script start n \<noteq> Some (Inl ZeroDivisionError)"
    unfolding metropolis_hastings_sampling_def by (rule mh_loop_no_zero_division)
  ultimately show ?thesis using pos by blast
qed

lemma true_divide_2_3: "true_divide 2 3 = 6004799503160661 / 9007199254740992"
  by code_simp

lemma size_paw_1: "int (number_of_nodes [(1 :: nat, [] :: nat list)]) < 2"
  by (simp add: number_of_nodes_def)

lemma nbrs_paw_1: "neighbors paw 1 = Inr [2, 3, 4]"
  by code_simp

lemma ratio_paw:
  "min 1 (true_divide (degree paw (choice 0 [2, 3, 4])) (degree paw 1))
     = 6004799503160661 / 9007199254740992"
  by code_simp

lemma mh_paw_rest:
  "mh_loop paw [(2, 0)] 1 [(1, [])] 2 = Some (Inr [(1, [4]), (4, [1])])"
  by code_simp

text \<open>On the triangle with a pendant node, at node 1 with the neighbour 2 chosen, the ratio
  is the floating-point number nearest to 2/3, which is \<open>6004799503160661 / 2 ^ 53\<close>, below
  2/3. The draw of this very number is not below the ratio: the step is rejected and the
  next iteration, with the choice of the neighbour 4 and the draw 0, leaves from node 1.\<close>

theorem metropolis_hastings_rejection_witness:
  "int (number_of_nodes [(1 :: nat, [] :: nat list)]) < 2
   \<and> neighbors paw 1 = Inr [2, 3, 4] \<and> [2, 3, 4 :: nat] \<noteq> []
   \<and> 0 < degree paw 1
   \<and> \<not> (6004799503160661 / 9007199254740992 :: rat)
         < min 1 (true_divide (degree paw (choice 0 [2, 3, 4])) (degree paw 1))
   \<and> mh_move paw [2, 3, 4] (0, 6004799503160661 / 9007199254740992) 1 [(1, [])] = Inr (1, [(1, [])])
   \<and> mh_loop paw [(0, 6004799503160661 / 9007199254740992), (2, 0)] 1 [(1, [])] 2
       = Some (Inr [(1, [4]), (4, [1])])
   \<and> 1 \<in> set (nodes [(1 :: nat, [] :: nat list)])
   \<and> add_node [(1 :: nat, [])] 1 = [(1, [])]"
proof -
  have ne: "[2, 3, 4 :: nat] \<noteq> []" by simp
  note t = metropolis_hastings_rejection [OF size_paw_1 nbrs_paw_1 ne,
      where c = 0 and u = "6004799503160661 / 9007199254740992" and script = "[(2, 0)]"
        and start = 1]
  have rej: "\<not> (6004799503160661 / 9007199254740992 :: rat)
         < min 1 (true_divide (degree paw (choice 0 [2, 3, 4])) (degree paw 1))"
    by (simp only: ratio_paw)
  have mem: "1 \<in> set (nodes [(1 :: nat, [] :: nat list)])"
    by (simp add: nodes_def)
  from t have pos: "0 < degree paw 1" by blast
  from t mem have same: "add_node [(1 :: nat, [])] 1 = [(1, [])]" by blast
  from t rej have
    "mh_move paw [2, 3, 4] (0, 6004799503160661 / 9007199254740992) 1 [(1, [])]
       = Inr (1, add_node [(1, [])] 1)"
    "mh_loop paw [(0, 6004799503160661 / 9007199254740992), (2, 0)] 1 [(1, [])] 2
       = mh_loop paw [(2, 0)] 1 (add_node [(1, [])] 1) 2"
    by blast+
  then have
    "mh_move paw [2, 3, 4] (0, 6004799503160661 / 9007199254740992) 1 [(1, [])] = Inr (1, [(1, [])])"
    "mh_loop paw [(0, 6004799503160661 / 9007199254740992), (2, 0)] 1 [(1, [])] 2
       = Some (Inr [(1, [4]), (4, [1])])"
    by (simp_all only: same mh_paw_rest)
  then show ?thesis
    using size_paw_1 nbrs_paw_1 ne rej mem pos same by (simp only: simp_thms)
qed

text \<open>
  Claim C10. Whatever the graph, the draws, the start node and the target are, a graph
  returned by \<^verbatim>\<open>metropolis_hastings_sampling\<close> contains the start node and is connected. For
  a target of at most 1 (0 and the negative targets too) the call returns at once, and
  the result is the graph of the start node alone, never the empty graph.
\<close>

theorem metropolis_hastings_connected:
  "(metropolis_hastings_sampling G script start n = Some (Inr S) \<longrightarrow>
      start \<in> set (nodes S) \<and> is_connected S)
   \<and> (n \<le> 1 \<longrightarrow> metropolis_hastings_sampling G script start n = Some (Inr [(start, [])]))"
proof (intro conjI impI)
  assume run: "metropolis_hastings_sampling G script start n = Some (Inr S)"
  have "reach_inv start S"
  proof (rule mh_loop_inv)
    show "reach_inv start (add_node empty_graph start)" by (rule reach_inv_start)
    show "start \<in> set (nodes (add_node empty_graph start))" by (simp add: nodes_add_node)
    show "mh_loop G script start (add_node empty_graph start) n = Some (Inr S)"
      using run by (simp add: metropolis_hastings_sampling_def)
  qed
  then show "start \<in> set (nodes S)"
    by (simp add: reach_inv_def)
  from \<open>reach_inv start S\<close> show "is_connected S"
    by (rule reach_inv_connected)
next
  assume "n \<le> 1"
  then show "metropolis_hastings_sampling G script start n = Some (Inr [(start, [])])"
    unfolding metropolis_hastings_sampling_def
    by (subst mh_loop.simps)
       (simp add: add_node_def empty_graph_def nodes_def number_of_nodes_def)
qed

lemma mh_path5_3:
  "metropolis_hastings_sampling path5 [(0, 0), (1, 0), (0, 3 / 4), (1, 1 / 2)] 1 3
     = Some (Inr [(1, [2]), (2, [1, 3]), (3, [2])])"
  by code_simp

text \<open>A run on the path graph from node 1 with target 3, and the target 0.\<close>

theorem metropolis_hastings_connected_witness:
  "metropolis_hastings_sampling path5 [(0, 0), (1, 0), (0, 3 / 4), (1, 1 / 2)] 1 3
     = Some (Inr [(1, [2]), (2, [1, 3]), (3, [2])])
   \<and> 1 \<in> set (nodes [(1 :: nat, [2]), (2, [1, 3]), (3, [2])])
   \<and> is_connected [(1 :: nat, [2]), (2, [1, 3]), (3, [2])]
   \<and> (0 :: int) \<le> 1
   \<and> metropolis_hastings_sampling path5 [] 1 0 = Some (Inr [(1, [])])"
  using metropolis_hastings_connected
      [where G = path5 and script = "[(0, 0), (1, 0), (0, 3 / 4), (1, 1 / 2)]" and start = 1
         and n = 3 and S = "[(1, [2]), (2, [1, 3]), (3, [2])]"]
    metropolis_hastings_connected [where G = path5 and script = "[]" and start = 1 and n = 0]
    mh_path5_3
  by simp




































lemma adj_path5_2: "adj path5 2 = [1, 3]"
  by code_simp


section \<open>The frontier samplers\<close>

text \<open>A Python \<^verbatim>\<open>set\<close> of nodes is a list without duplicates, in the order of insertion:
  \<^verbatim>\<open>s.add(x)\<close> is \<open>set_add\<close>, \<^verbatim>\<open>set(xs)\<close> is \<open>set_of\<close>, \<^verbatim>\<open>len(s)\<close> is \<open>length\<close> and
  \<^verbatim>\<open>list(s)\<close> is the list itself (Python leaves the order of \<^verbatim>\<open>list(s)\<close> open; no
  statement below depends on it).\<close>

definition set_add :: "'a list \<Rightarrow> 'a \<Rightarrow> 'a list" where
  "set_add xs x = (if x \<in> set xs then xs else xs @ [x])"

definition set_of :: "'a list \<Rightarrow> 'a list" where
  "set_of xs = foldl set_add [] xs"

text \<open>\<^verbatim>\<open>depth_first_sampling\<close>: the stack is a list whose top is its last element. The
  inner loop pushes a neighbour when the sample is still below the target.\<close>

fun dfs_push :: "'a list \<Rightarrow> 'a list \<Rightarrow> 'a list \<Rightarrow> int \<Rightarrow> 'a list" where
  "dfs_push [] stack sampled_nodes sample_size = stack"
| "dfs_push (neighbor # rest) stack sampled_nodes sample_size =
     dfs_push rest
       (if int (length sampled_nodes) < sample_size then stack @ [neighbor] else stack)
       sampled_nodes sample_size"

lemma neighbors_Inr_node: "neighbors G n = Inr nbrs \<Longrightarrow> n \<in> set (nodes G)"
  by (auto simp: neighbors_def split: option.splits dest: map_of_Some_nodes)

function dfs_loop :: "'a graph \<Rightarrow> nat list \<Rightarrow> 'a list \<Rightarrow> 'a list \<Rightarrow> int \<Rightarrow> error + 'a list" where
  "dfs_loop G rs stack sampled_nodes sample_size =
     (if stack \<noteq> [] \<and> int (length sampled_nodes) < sample_size then
        (if last stack \<notin> set sampled_nodes then
           (case neighbors G (last stack) of
              Inl e \<Rightarrow> Inl e
            | Inr nbrs \<Rightarrow>
                dfs_loop G (snd (draw rs))
                  (dfs_push (shuffle (fst (draw rs)) nbrs) (butlast stack)
                     (set_add sampled_nodes (last stack)) sample_size)
                  (set_add sampled_nodes (last stack)) sample_size)
         else dfs_loop G rs (butlast stack) sampled_nodes sample_size)
      else Inr sampled_nodes)"
  by pat_completeness auto
termination
proof (relation "measures [\<lambda>(G, rs, stack, sampled_nodes, sample_size). card (set (nodes G) - set sampled_nodes),
                           \<lambda>(G, rs, stack, sampled_nodes, sample_size). length stack]", goal_cases)
  case 1
  show ?case by simp
next
  case (2 G rs stack sampled_nodes sample_size nbrs)
  then have "last stack \<in> set (nodes G) - set sampled_nodes"
    by (simp add: neighbors_Inr_node)
  then have "set (nodes G) - set (set_add sampled_nodes (last stack))
      \<subset> set (nodes G) - set sampled_nodes"
    by (auto simp: set_add_def)
  then have "card (set (nodes G) - set (set_add sampled_nodes (last stack)))
      < card (set (nodes G) - set sampled_nodes)"
    by (simp add: psubset_card_mono)
  then show ?case by simp
next
  case (3 G rs stack sampled_nodes sample_size)
  then show ?case by simp
qed

declare dfs_loop.simps [simp del]

definition depth_first_sampling :: "'a graph \<Rightarrow> nat list \<Rightarrow> 'a \<Rightarrow> int \<Rightarrow> error + 'a list" where
  "depth_first_sampling G rs initial_node sample_size = dfs_loop G rs [initial_node] [] sample_size"

text \<open>\<^verbatim>\<open>breadth_first_sampling\<close>: the queue is a list whose front is its head. The inner
  loop admits the neighbours that are not in the sample and stops after the admission
  that reaches the target.\<close>

fun bfs_visit :: "'a list \<Rightarrow> 'a list \<Rightarrow> 'a list \<Rightarrow> int \<Rightarrow> 'a list \<times> 'a list" where
  "bfs_visit [] sampled_nodes queue sample_size = (sampled_nodes, queue)"
| "bfs_visit (neighbor # rest) sampled_nodes queue sample_size =
     (if neighbor \<notin> set sampled_nodes then
        (if int (length (set_add sampled_nodes neighbor)) \<ge> sample_size
         then (set_add sampled_nodes neighbor, queue @ [neighbor])
         else bfs_visit rest (set_add sampled_nodes neighbor) (queue @ [neighbor]) sample_size)
      else bfs_visit rest sampled_nodes queue sample_size)"

text \<open>All nodes that a graph mentions: its nodes and the entries of its neighbour lists.\<close>

definition mentioned :: "'a graph \<Rightarrow> 'a set" where
  "mentioned G = set (nodes G) \<union> (\<Union>u \<in> set (nodes G). set (adj G u))"

lemma bfs_visit_new:
  "\<exists>new. bfs_visit nbrs sampled queue n = (sampled @ new, queue @ new)
     \<and> distinct new \<and> set new \<subseteq> set nbrs - set sampled
     \<and> (new \<noteq> [] \<longrightarrow> int (length sampled) < n \<longrightarrow> int (length (sampled @ new)) \<le> n)"
proof (induction nbrs sampled queue n rule: bfs_visit.induct)
  case (1 sampled_nodes queue sample_size)
  then show ?case by simp
next
  case (2 neighbor rest sampled_nodes queue sample_size)
  show ?case
  proof (cases "neighbor \<in> set sampled_nodes")
    case True
    with 2(2) show ?thesis by auto
  next
    case False
    note nin = this
    have sa: "set_add sampled_nodes neighbor = sampled_nodes @ [neighbor]"
      using nin by (simp add: set_add_def)
    show ?thesis
    proof (cases "int (length (set_add sampled_nodes neighbor)) \<ge> sample_size")
      case True
      have "bfs_visit (neighbor # rest) sampled_nodes queue sample_size
          = (sampled_nodes @ [neighbor], queue @ [neighbor])"
        using nin True by (simp add: sa)
      moreover have "distinct [neighbor]" "set [neighbor] \<subseteq> set (neighbor # rest) - set sampled_nodes"
        using nin by simp_all
      moreover have "int (length sampled_nodes) < sample_size \<longrightarrow>
          int (length (sampled_nodes @ [neighbor])) \<le> sample_size"
        by simp
      ultimately show ?thesis by blast
    next
      case False
      from 2(1) [OF nin False] obtain new where
        n: "bfs_visit rest (set_add sampled_nodes neighbor) (queue @ [neighbor]) sample_size
              = (set_add sampled_nodes neighbor @ new, (queue @ [neighbor]) @ new)"
           "distinct new" "set new \<subseteq> set rest - set (set_add sampled_nodes neighbor)"
           "new \<noteq> [] \<longrightarrow> int (length (set_add sampled_nodes neighbor)) < sample_size \<longrightarrow>
              int (length (set_add sampled_nodes neighbor @ new)) \<le> sample_size"
        by blast
      have "bfs_visit (neighbor # rest) sampled_nodes queue sample_size
          = (sampled_nodes @ neighbor # new, queue @ neighbor # new)"
        using nin False n(1) by (simp add: sa)
      moreover have "distinct (neighbor # new)"
        using n(2,3) by (auto simp: sa)
      moreover have "set (neighbor # new) \<subseteq> set (neighbor # rest) - set sampled_nodes"
        using n(3) nin by (auto simp: sa)
      moreover have "int (length (sampled_nodes @ neighbor # new)) \<le> sample_size"
        using n(4) False by (cases "new = []") (simp_all add: sa)
      ultimately show ?thesis by blast
    qed
  qed
qed

function bfs_loop :: "'a graph \<Rightarrow> nat list \<Rightarrow> 'a list \<Rightarrow> 'a list \<Rightarrow> int \<Rightarrow> error + 'a list" where
  "bfs_loop G rs queue sampled_nodes sample_size =
     (if queue \<noteq> [] \<and> int (length sampled_nodes) < sample_size then
        (case neighbors G (hd queue) of
           Inl e \<Rightarrow> Inl e
         | Inr nbrs \<Rightarrow>
             bfs_loop G (snd (draw rs))
               (snd (bfs_visit (shuffle (fst (draw rs)) nbrs) sampled_nodes (tl queue) sample_size))
               (fst (bfs_visit (shuffle (fst (draw rs)) nbrs) sampled_nodes (tl queue) sample_size))
               sample_size)
      else Inr sampled_nodes)"
  by pat_completeness auto
termination
proof (relation "measure (\<lambda>(G, rs, queue, sampled_nodes, sample_size).
          card (mentioned G - set sampled_nodes) + length queue)", goal_cases)
  case 1
  show ?case by simp
next
  case (2 G rs queue sampled_nodes sample_size nbrs)
  let ?nb = "shuffle (fst (draw rs)) nbrs"
  obtain new where n: "bfs_visit ?nb sampled_nodes (tl queue) sample_size
        = (sampled_nodes @ new, tl queue @ new)"
      "distinct new" "set new \<subseteq> set ?nb - set sampled_nodes"
    using bfs_visit_new [of ?nb sampled_nodes "tl queue" sample_size] by blast
  from 2 have node: "hd queue \<in> set (nodes G)" and a: "adj G (hd queue) = nbrs"
    by (auto simp: neighbors_Inr_node neighbors_adj)
  have fin: "finite (mentioned G)"
    by (simp add: mentioned_def)
  from node a n(3) have sub: "set new \<subseteq> mentioned G - set sampled_nodes"
    by (auto simp: mentioned_def set_shuffle)
  have "mentioned G - set (sampled_nodes @ new) = (mentioned G - set sampled_nodes) - set new"
    by auto
  then have "card (mentioned G - set (sampled_nodes @ new))
      = card (mentioned G - set sampled_nodes) - card (set new)"
    using sub fin by (simp add: card_Diff_subset finite_subset)
  moreover have "card (set new) \<le> card (mentioned G - set sampled_nodes)"
    using sub fin by (simp add: card_mono)
  moreover have "card (set new) = length new"
    using n(2) by (simp add: distinct_card)
  moreover from 2 have "length (tl queue) < length queue"
    by (cases queue) auto
  ultimately show ?case
    using n(1) by simp
qed

declare bfs_loop.simps [simp del]

definition breadth_first_sampling :: "'a graph \<Rightarrow> nat list \<Rightarrow> 'a list \<Rightarrow> int \<Rightarrow> error + 'a list" where
  "breadth_first_sampling G rs initial_nodes sample_size =
     bfs_loop G rs initial_nodes (set_of initial_nodes) sample_size"

lemma set_set_add: "set (set_add xs x) = insert x (set xs)"
  by (auto simp: set_add_def)

lemma distinct_set_add: "distinct xs \<Longrightarrow> distinct (set_add xs x)"
  by (simp add: set_add_def)

lemma length_set_add_new: "x \<notin> set xs \<Longrightarrow> length (set_add xs x) = Suc (length xs)"
  by (simp add: set_add_def)

lemma foldl_set_add:
  "set (foldl set_add acc xs) = set acc \<union> set xs
     \<and> (distinct acc \<longrightarrow> distinct (foldl set_add acc xs))"
  by (induction xs arbitrary: acc) (auto simp: set_set_add distinct_set_add)

lemma set_set_of: "set (set_of xs) = set xs"
  using foldl_set_add [of "[]" xs] by (simp add: set_of_def)

lemma distinct_set_of: "distinct (set_of xs)"
  using foldl_set_add [of "[]" xs] by (simp add: set_of_def)

lemma length_set_of: "length (set_of xs) = card (set xs)"
  using distinct_card [OF distinct_set_of, of xs] by (simp add: set_set_of)

lemma set_dfs_push: "set (dfs_push nbrs stack sampled k) \<subseteq> set nbrs \<union> set stack"
  by (induction nbrs stack sampled k rule: dfs_push.induct) auto

lemma wf_graph_adj_nodes:
  assumes "wf_graph G" and "v \<in> set (adj G u)"
  shows "u \<in> set (nodes G) \<and> v \<in> set (nodes G)"
proof -
  obtain nbrs where m: "map_of G u = Some nbrs" and v: "v \<in> set nbrs"
    using assms(2) by (cases "map_of G u") (simp_all add: adj_def)
  from m have e: "(u, nbrs) \<in> set G" by (rule map_of_SomeD)
  then have "u \<in> set (nodes G)" by (auto simp: nodes_def intro: rev_image_eqI)
  moreover from assms(1) e v have "v \<in> set (nodes G)"
    by (auto simp: wf_graph_def list_all_iff)
  ultimately show ?thesis by simp
qed

text \<open>A set of nodes of the graph that has the neighbours of its elements.\<close>

definition closed_in :: "'a graph \<Rightarrow> 'a set \<Rightarrow> bool" where
  "closed_in G R \<longleftrightarrow> R \<subseteq> set (nodes G) \<and> (\<forall>u \<in> R. set (adj G u) \<subseteq> R)"

text \<open>The nodes that are reached from one of the given nodes along the edges of the graph,
  the given nodes too.\<close>

definition reachable_from :: "'a graph \<Rightarrow> 'a list \<Rightarrow> 'a set" where
  "reachable_from G inits = {v. \<exists>u \<in> set inits. (u, v) \<in> (adj_rel G)\<^sup>*}"

lemma closed_in_reachable_from:
  assumes "wf_graph G" and "set inits \<subseteq> set (nodes G)"
  shows "closed_in G (reachable_from G inits)"
proof -
  have n: "v \<in> set (nodes G)" if "(u, v) \<in> (adj_rel G)\<^sup>*" and "u \<in> set (nodes G)" for u v
    using that
  proof (induction rule: rtrancl_induct)
    case base
    then show ?case by simp
  next
    case (step y z)
    then have "z \<in> set (adj G y)" by (simp add: adj_rel_def)
    then show ?case using wf_graph_adj_nodes [OF assms(1)] by blast
  qed
  have "reachable_from G inits \<subseteq> set (nodes G)"
    using n assms(2) by (auto simp: reachable_from_def)
  moreover have "\<forall>u \<in> reachable_from G inits. set (adj G u) \<subseteq> reachable_from G inits"
  proof (intro ballI subsetI)
    fix u v assume "u \<in> reachable_from G inits" and v: "v \<in> set (adj G u)"
    then obtain s where s: "s \<in> set inits" "(s, u) \<in> (adj_rel G)\<^sup>*"
      by (auto simp: reachable_from_def)
    from v have "(u, v) \<in> adj_rel G" by (simp add: adj_rel_def)
    with s(2) have "(s, v) \<in> (adj_rel G)\<^sup>*" by (rule rtrancl_into_rtrancl)
    with s(1) show "v \<in> reachable_from G inits"
      by (auto simp: reachable_from_def)
  qed
  ultimately show ?thesis by (simp add: closed_in_def)
qed

lemma inits_reachable_from: "set inits \<subseteq> reachable_from G inits"
  by (auto simp: reachable_from_def)

lemma dfs_loop_inv:
  "closed_in G R \<Longrightarrow> set stack \<subseteq> R \<Longrightarrow> set sampled \<subseteq> R \<Longrightarrow> distinct sampled
     \<Longrightarrow> int (length sampled) \<le> max 0 k \<Longrightarrow> set keep \<subseteq> set sampled
     \<Longrightarrow> \<exists>ns. dfs_loop G rs stack sampled k = Inr ns \<and> set ns \<subseteq> R \<and> distinct ns
           \<and> int (length ns) \<le> max 0 k \<and> set keep \<subseteq> set ns"
proof (induction G rs stack sampled k rule: dfs_loop.induct)
  case (1 G rs stack sampled_nodes sample_size)
  show ?case
  proof (cases "stack \<noteq> [] \<and> int (length sampled_nodes) < sample_size")
    case False
    have "dfs_loop G rs stack sampled_nodes sample_size = Inr sampled_nodes"
      by (subst dfs_loop.simps) (simp only: False if_False)
    with "1.prems" show ?thesis by simp
  next
    case go: True
    then have top: "last stack \<in> R"
      using "1.prems"(2) last_in_set by blast
    have bl: "set (butlast stack) \<subseteq> R"
      using "1.prems"(2) in_set_butlastD by fast
    show ?thesis
    proof (cases "last stack \<notin> set sampled_nodes")
      case False
      then have eq: "dfs_loop G rs stack sampled_nodes sample_size
          = dfs_loop G rs (butlast stack) sampled_nodes sample_size"
        using go by (subst dfs_loop.simps) simp
      from "1.IH"(2) [OF go False "1.prems"(1) bl "1.prems"(3,4,5,6)] show ?thesis
        by (simp only: eq)
    next
      case new: True
      let ?nbrs = "adj G (last stack)"
      let ?s = "set_add sampled_nodes (last stack)"
      let ?st = "dfs_push (shuffle (fst (draw rs)) ?nbrs) (butlast stack) ?s sample_size"
      have node: "last stack \<in> set (nodes G)"
        using top "1.prems"(1) by (auto simp: closed_in_def)
      then have nb: "neighbors G (last stack) = Inr ?nbrs"
        by (rule neighbors_node)
      have eq: "dfs_loop G rs stack sampled_nodes sample_size
          = dfs_loop G (snd (draw rs)) ?st ?s sample_size"
        using go new nb by (subst dfs_loop.simps) simp
      have "set ?nbrs \<subseteq> R"
        using top "1.prems"(1) by (auto simp: closed_in_def)
      then have st: "set ?st \<subseteq> R"
        using set_dfs_push [of "shuffle (fst (draw rs)) ?nbrs" "butlast stack" ?s sample_size] bl
        by (auto simp: set_shuffle)
      have ss: "set ?s \<subseteq> R"
        using top "1.prems"(3) by (simp add: set_set_add)
      have ds: "distinct ?s"
        using "1.prems"(4) by (rule distinct_set_add)
      have ls: "int (length ?s) \<le> max 0 sample_size"
        using go new by (simp add: length_set_add_new)
      have ks: "set keep \<subseteq> set ?s"
        using "1.prems"(6) by (auto simp: set_set_add)
      from "1.IH"(1) [OF go new nb "1.prems"(1) st ss ds ls ks] show ?thesis
        by (simp only: eq)
    qed
  qed
qed

lemma bfs_loop_inv:
  "closed_in G R \<Longrightarrow> set queue \<subseteq> R \<Longrightarrow> set sampled \<subseteq> R \<Longrightarrow> distinct sampled
     \<Longrightarrow> int (length sampled) \<le> max k m \<Longrightarrow> set keep \<subseteq> set sampled
     \<Longrightarrow> \<exists>ns. bfs_loop G rs queue sampled k = Inr ns \<and> set ns \<subseteq> R \<and> distinct ns
           \<and> int (length ns) \<le> max k m \<and> set keep \<subseteq> set ns"
proof (induction G rs queue sampled k rule: bfs_loop.induct)
  case (1 G rs queue sampled_nodes sample_size)
  show ?case
  proof (cases "queue \<noteq> [] \<and> int (length sampled_nodes) < sample_size")
    case False
    have "bfs_loop G rs queue sampled_nodes sample_size = Inr sampled_nodes"
      by (subst bfs_loop.simps) (simp only: False if_False)
    with "1.prems" show ?thesis by simp
  next
    case go: True
    then have front: "hd queue \<in> R"
      using "1.prems"(2) hd_in_set by blast
    have tl: "set (tl queue) \<subseteq> R"
      using "1.prems"(2) list.set_sel(2) go by fast
    let ?nbrs = "adj G (hd queue)"
    let ?v = "bfs_visit (shuffle (fst (draw rs)) ?nbrs) sampled_nodes (tl queue) sample_size"
    have node: "hd queue \<in> set (nodes G)"
      using front "1.prems"(1) by (auto simp: closed_in_def)
    then have nb: "neighbors G (hd queue) = Inr ?nbrs"
      by (rule neighbors_node)
    have eq: "bfs_loop G rs queue sampled_nodes sample_size
        = bfs_loop G (snd (draw rs)) (snd ?v) (fst ?v) sample_size"
      using go nb by (subst bfs_loop.simps) simp
    obtain new where n: "?v = (sampled_nodes @ new, tl queue @ new)"
        "distinct new" "set new \<subseteq> set (shuffle (fst (draw rs)) ?nbrs) - set sampled_nodes"
        "new \<noteq> [] \<longrightarrow> int (length sampled_nodes) < sample_size \<longrightarrow>
           int (length (sampled_nodes @ new)) \<le> sample_size"
      using bfs_visit_new [of "shuffle (fst (draw rs)) ?nbrs" sampled_nodes "tl queue" sample_size]
      by blast
    have nbR: "set ?nbrs \<subseteq> R"
      using front "1.prems"(1) by (auto simp: closed_in_def)
    have newR: "set new \<subseteq> R"
      using n(3) nbR by (auto simp: set_shuffle)
    have q: "set (snd ?v) \<subseteq> R"
      using tl newR by (simp add: n(1))
    have s: "set (fst ?v) \<subseteq> R"
      using "1.prems"(3) newR by (simp add: n(1))
    have d: "distinct (fst ?v)"
      using "1.prems"(4) n(2,3) by (auto simp: n(1))
    have l: "int (length (fst ?v)) \<le> max sample_size m"
    proof (cases "new = []")
      case True
      then show ?thesis using "1.prems"(5) by (simp add: n(1))
    next
      case False
      with n(4) go have "int (length (sampled_nodes @ new)) \<le> sample_size" by blast
      then show ?thesis by (simp add: n(1))
    qed
    have k: "set keep \<subseteq> set (fst ?v)"
      using "1.prems"(6) by (auto simp: n(1))
    from "1.IH" [OF go nb "1.prems"(1) q s d l k] show ?thesis
      by (simp only: eq)
  qed
qed

lemma dfs_first_step:
  assumes "1 \<le> k" and "initial \<in> set (nodes G)"
  shows "dfs_loop G rs [initial] [] k
     = dfs_loop G (snd (draw rs))
         (dfs_push (shuffle (fst (draw rs)) (adj G initial)) [] [initial] k) [initial] k"
  using assms neighbors_node [OF assms(2)]
  by (subst dfs_loop.simps) (simp add: set_add_def)

text \<open>
  Claim C3, as amended. On a graph \<open>G\<close> with the initial nodes in \<open>G\<close>, both samplers return
  a list of nodes without duplicates, for every outcome of the shuffles and every sample
  size \<open>k\<close>. \<^verbatim>\<open>depth_first_sampling\<close> returns at most \<open>k\<close> nodes (none for \<open>k \<le> 0\<close>), the
  initial node among them when \<open>k \<ge> 1\<close>, each reached from the initial node along edges
  of \<open>G\<close>. \<^verbatim>\<open>breadth_first_sampling\<close> returns all the initial nodes, and at most \<open>k\<close> nodes
  or, when there are more than \<open>k\<close> distinct initial nodes, exactly that many; each
  returned node is reached from some initial node along edges of \<open>G\<close>.
\<close>

theorem frontier_sampling_bounded_reachable:
  assumes "wf_graph G" and "initial_node \<in> set (nodes G)"
    and "set initial_nodes \<subseteq> set (nodes G)"
  shows "(\<exists>ns. depth_first_sampling G rs initial_node k = Inr ns
            \<and> int (length ns) \<le> max 0 k \<and> distinct ns
            \<and> (1 \<le> k \<longrightarrow> initial_node \<in> set ns)
            \<and> (\<forall>v \<in> set ns. (initial_node, v) \<in> (adj_rel G)\<^sup>*))
       \<and> (\<exists>ns. breadth_first_sampling G rs' initial_nodes k = Inr ns
            \<and> int (length ns) \<le> max k (int (card (set initial_nodes))) \<and> distinct ns
            \<and> set initial_nodes \<subseteq> set ns
            \<and> (\<forall>v \<in> set ns. \<exists>u \<in> set initial_nodes. (u, v) \<in> (adj_rel G)\<^sup>*))"
proof (rule conjI)
  let ?R = "reachable_from G [initial_node]"
  have cl: "closed_in G ?R"
    using assms(1,2) by (simp add: closed_in_reachable_from)
  have i: "initial_node \<in> ?R"
    using inits_reachable_from [of "[initial_node]" G] by simp
  have R: "(initial_node, v) \<in> (adj_rel G)\<^sup>*" if "v \<in> ?R" for v
    using that by (simp add: reachable_from_def)
  show "\<exists>ns. depth_first_sampling G rs initial_node k = Inr ns
            \<and> int (length ns) \<le> max 0 k \<and> distinct ns
            \<and> (1 \<le> k \<longrightarrow> initial_node \<in> set ns)
            \<and> (\<forall>v \<in> set ns. (initial_node, v) \<in> (adj_rel G)\<^sup>*)"
  proof (cases "1 \<le> k")
    case False
    have st: "set [initial_node] \<subseteq> ?R" using i by simp
    have "\<exists>ns. dfs_loop G rs [initial_node] [] k = Inr ns \<and> set ns \<subseteq> ?R \<and> distinct ns
           \<and> int (length ns) \<le> max 0 k \<and> set [] \<subseteq> set ns"
      using cl st by (rule dfs_loop_inv) simp_all
    then obtain ns where ns: "dfs_loop G rs [initial_node] [] k = Inr ns" "set ns \<subseteq> ?R"
        "distinct ns" "int (length ns) \<le> max 0 k"
      by blast
    have "\<forall>v \<in> set ns. (initial_node, v) \<in> (adj_rel G)\<^sup>*"
      using ns(2) R by blast
    with ns False show ?thesis
      unfolding depth_first_sampling_def by blast
  next
    case True
    let ?st = "dfs_push (shuffle (fst (draw rs)) (adj G initial_node)) [] [initial_node] k"
    have eq: "dfs_loop G rs [initial_node] [] k = dfs_loop G (snd (draw rs)) ?st [initial_node] k"
      using True assms(2) by (rule dfs_first_step)
    have "set (adj G initial_node) \<subseteq> ?R"
      using cl i by (auto simp: closed_in_def)
    then have st: "set ?st \<subseteq> ?R"
      using set_dfs_push [of "shuffle (fst (draw rs)) (adj G initial_node)" "[]" "[initial_node]" k]
      by (auto simp: set_shuffle)
    have sa: "set [initial_node] \<subseteq> ?R" using i by simp
    have l: "int (length [initial_node]) \<le> max 0 k" using True by simp
    have "\<exists>ns. dfs_loop G (snd (draw rs)) ?st [initial_node] k = Inr ns \<and> set ns \<subseteq> ?R
           \<and> distinct ns \<and> int (length ns) \<le> max 0 k \<and> set [initial_node] \<subseteq> set ns"
      using cl st sa _ l by (rule dfs_loop_inv) simp_all
    then obtain ns where ns: "dfs_loop G rs [initial_node] [] k = Inr ns" "set ns \<subseteq> ?R"
        "distinct ns" "int (length ns) \<le> max 0 k" "initial_node \<in> set ns"
      unfolding eq by auto
    have "\<forall>v \<in> set ns. (initial_node, v) \<in> (adj_rel G)\<^sup>*"
      using ns(2) R by blast
    with ns show ?thesis
      unfolding depth_first_sampling_def by blast
  qed
next
  let ?R = "reachable_from G initial_nodes"
  have cl: "closed_in G ?R"
    using assms(1,3) by (rule closed_in_reachable_from)
  have q: "set initial_nodes \<subseteq> ?R"
    by (rule inits_reachable_from)
  have s: "set (set_of initial_nodes) \<subseteq> ?R"
    using q by (simp add: set_set_of)
  have l: "int (length (set_of initial_nodes)) \<le> max k (int (card (set initial_nodes)))"
    by (simp add: length_set_of)
  have kp: "set initial_nodes \<subseteq> set (set_of initial_nodes)"
    by (simp add: set_set_of)
  have "\<exists>ns. bfs_loop G rs' initial_nodes (set_of initial_nodes) k = Inr ns \<and> set ns \<subseteq> ?R
      \<and> distinct ns \<and> int (length ns) \<le> max k (int (card (set initial_nodes)))
      \<and> set initial_nodes \<subseteq> set ns"
    using cl q s distinct_set_of l kp by (rule bfs_loop_inv)
  then obtain ns where ns: "bfs_loop G rs' initial_nodes (set_of initial_nodes) k = Inr ns"
      "set ns \<subseteq> ?R" "distinct ns" "int (length ns) \<le> max k (int (card (set initial_nodes)))"
      "set initial_nodes \<subseteq> set ns"
    by blast
  have "\<forall>v \<in> set ns. \<exists>u \<in> set initial_nodes. (u, v) \<in> (adj_rel G)\<^sup>*"
    using ns(2) by (auto simp: reachable_from_def)
  with ns show "\<exists>ns. breadth_first_sampling G rs' initial_nodes k = Inr ns
            \<and> int (length ns) \<le> max k (int (card (set initial_nodes))) \<and> distinct ns
            \<and> set initial_nodes \<subseteq> set ns
            \<and> (\<forall>v \<in> set ns. \<exists>u \<in> set initial_nodes. (u, v) \<in> (adj_rel G)\<^sup>*)"
    unfolding breadth_first_sampling_def by blast
qed

lemma dfs_path5_3: "depth_first_sampling path5 [0, 0, 0] 1 3 = Inr [1, 2, 3]"
  by code_simp

lemma bfs_path5_3: "breadth_first_sampling path5 [0, 0, 0] [1] 3 = Inr [1, 2, 3]"
  by code_simp

lemma bfs_path5_seeds: "breadth_first_sampling path5 [] [1, 2, 3] 2 = Inr [1, 2, 3]"
  by code_simp

text \<open>The path graph on the nodes 1 to 5 from node 1 with the sample size 3: both samplers return the nodes 1, 2, 3.\<close>

theorem frontier_sampling_bounded_reachable_witness:
  "wf_graph path5 \<and> 1 \<in> set (nodes path5) \<and> set [1] \<subseteq> set (nodes path5)
   \<and> depth_first_sampling path5 [0, 0, 0] 1 3 = Inr [1, 2, 3]
   \<and> int (length [1, 2, 3 :: nat]) \<le> max 0 3
   \<and> (1 :: int) \<le> 3 \<and> 1 \<in> set [1, 2, 3 :: nat] \<and> 3 \<in> set [1, 2, 3 :: nat]
   \<and> (1, 3) \<in> (adj_rel path5)\<^sup>*
   \<and> breadth_first_sampling path5 [0, 0, 0] [1] 3 = Inr [1, 2, 3]
   \<and> int (length [1, 2, 3 :: nat]) \<le> max 3 (int (card (set [1 :: nat])))
   \<and> (\<exists>u \<in> set [1]. (u, 3) \<in> (adj_rel path5)\<^sup>*)"
proof -
  have m: "1 \<in> set (nodes path5)" and sub: "set [1] \<subseteq> set (nodes path5)"
    by (simp_all add: nodes_path5)
  note t = frontier_sampling_bounded_reachable [OF wf_path5 m sub,
      where rs = "[0, 0, 0]" and rs' = "[0, 0, 0]" and k = 3]
  from t obtain ns where "depth_first_sampling path5 [0, 0, 0] 1 3 = Inr ns"
      "int (length ns) \<le> max 0 3" "\<forall>v \<in> set ns. (1, v) \<in> (adj_rel path5)\<^sup>*"
    by blast
  then have d: "int (length [1, 2, 3 :: nat]) \<le> max 0 3"
      "\<forall>v \<in> set [1, 2, 3]. (1, v) \<in> (adj_rel path5)\<^sup>*"
    by (simp_all only: dfs_path5_3 sum.inject)
  from t obtain ms where "breadth_first_sampling path5 [0, 0, 0] [1] 3 = Inr ms"
      "int (length ms) \<le> max 3 (int (card (set [1 :: nat])))"
      "\<forall>v \<in> set ms. \<exists>u \<in> set [1]. (u, v) \<in> (adj_rel path5)\<^sup>*"
    by blast
  then have b: "int (length [1, 2, 3 :: nat]) \<le> max 3 (int (card (set [1 :: nat])))"
      "\<forall>v \<in> set [1, 2, 3]. \<exists>u \<in> set [1]. (u, v) \<in> (adj_rel path5)\<^sup>*"
    by (simp_all only: bfs_path5_3 sum.inject)
  have in3: "3 \<in> set [1, 2, 3 :: nat]" and in1: "1 \<in> set [1, 2, 3 :: nat]"
    and one: "(1 :: int) \<le> 3"
    by simp_all
  from d(2) in3 have r1: "(1, 3) \<in> (adj_rel path5)\<^sup>*" by blast
  from b(2) in3 have r2: "\<exists>u \<in> set [1]. (u, 3) \<in> (adj_rel path5)\<^sup>*" by blast
  show ?thesis
    using wf_path5 m sub dfs_path5_3 d(1) one in1 in3 r1 bfs_path5_3 b(1) r2
    by (intro conjI)
qed

text \<open>Claim C3 as stated says that at most the requested number of nodes is returned. With the three initial nodes 1, 2, 3 of the path graph and the sample size 2, \<^verbatim>\<open>breadth_first_sampling\<close> returns the three initial nodes: the sample is seeded with all of them before the size is looked at.\<close>

theorem breadth_first_sampling_count_counterexample:
  "wf_graph path5 \<and> set [1, 2, 3] \<subseteq> set (nodes path5)
   \<and> breadth_first_sampling path5 [] [1, 2, 3] 2 = Inr [1, 2, 3]
   \<and> \<not> int (length [1, 2, 3 :: nat]) \<le> 2"
  using wf_path5 bfs_path5_seeds by (simp add: nodes_path5)

section \<open>Snowball sampling\<close>

text \<open>\<^verbatim>\<open>snowball_sampling\<close>, the loop over the shuffled neighbours of one node of the
  frontier: a neighbour that is not in the sample is admitted to the sample and to the next
  frontier, and the loop is left when the sample has reached the target.\<close>

fun snow_neighbors :: "'a list \<Rightarrow> 'a list \<Rightarrow> 'a list \<Rightarrow> int \<Rightarrow> 'a list \<times> 'a list" where
  "snow_neighbors [] sampled_nodes next_expand sample_size = (sampled_nodes, next_expand)"
| "snow_neighbors (neighbor # rest) sampled_nodes next_expand sample_size =
     (if int (length sampled_nodes) < sample_size then
        (if neighbor \<notin> set sampled_nodes
         then snow_neighbors rest (set_add sampled_nodes neighbor) (set_add next_expand neighbor)
                sample_size
         else snow_neighbors rest sampled_nodes next_expand sample_size)
      else (sampled_nodes, next_expand))"

text \<open>The loop over the nodes of the frontier; a shuffle for each node. The result has the
  draws that are left.\<close>

fun snow_nodes ::
    "'a graph \<Rightarrow> nat list \<Rightarrow> 'a list \<Rightarrow> 'a list \<Rightarrow> 'a list \<Rightarrow> int
      \<Rightarrow> error + ('a list \<times> 'a list \<times> nat list)" where
  "snow_nodes G rs [] sampled_nodes next_expand sample_size =
     Inr (sampled_nodes, next_expand, rs)"
| "snow_nodes G rs (node # rest) sampled_nodes next_expand sample_size =
     (case neighbors G node of
        Inl e \<Rightarrow> Inl e
      | Inr nbrs \<Rightarrow>
          (case snow_neighbors (shuffle (fst (draw rs)) nbrs) sampled_nodes next_expand sample_size of
             (sampled_nodes', next_expand') \<Rightarrow>
               snow_nodes G (snd (draw rs)) rest sampled_nodes' next_expand' sample_size))"

text \<open>The rounds, \<^verbatim>\<open>for _ in range(expand_depth)\<close>. The frontier \<^verbatim>\<open>to_expand\<close> is a Python
  set, and the language does not fix the order in which the loop goes over a set: the model
  takes that order from the random source too (one more draw for each round), so that every
  order is covered. Next to the sample the result has the list of the frontiers
  \<^verbatim>\<open>next_expand\<close> that the rounds have built, the first round first: the nodes admitted in
  each round.\<close>

fun snow_rounds ::
    "'a graph \<Rightarrow> nat list \<Rightarrow> nat \<Rightarrow> 'a list \<Rightarrow> 'a list \<Rightarrow> int \<Rightarrow> error + ('a list \<times> 'a list list)" where
  "snow_rounds G rs 0 to_expand sampled_nodes sample_size = Inr (sampled_nodes, [])"
| "snow_rounds G rs (Suc rounds) to_expand sampled_nodes sample_size =
     (case snow_nodes G (snd (draw rs)) (shuffle (fst (draw rs)) to_expand) sampled_nodes []
             sample_size of
        Inl e \<Rightarrow> Inl e
      | Inr (sampled_nodes', next_expand, rs') \<Rightarrow>
          if int (length sampled_nodes') \<ge> sample_size then Inr (sampled_nodes', [next_expand])
          else (case snow_rounds G rs' rounds next_expand sampled_nodes' sample_size of
                  Inl e \<Rightarrow> Inl e
                | Inr (result, admitted) \<Rightarrow> Inr (result, next_expand # admitted)))"

definition snowball_rounds ::
    "'a graph \<Rightarrow> nat list \<Rightarrow> 'a list \<Rightarrow> int \<Rightarrow> int \<Rightarrow> error + ('a list \<times> 'a list list)" where
  "snowball_rounds G rs initial_nodes sample_size expand_depth =
     snow_rounds G rs (nat expand_depth) (set_of initial_nodes) (set_of initial_nodes) sample_size"

definition snowball_sampling ::
    "'a graph \<Rightarrow> nat list \<Rightarrow> 'a list \<Rightarrow> int \<Rightarrow> int \<Rightarrow> error + 'a list" where
  "snowball_sampling G rs initial_nodes sample_size expand_depth =
     (case snowball_rounds G rs initial_nodes sample_size expand_depth of
        Inl e \<Rightarrow> Inl e
      | Inr (sampled_nodes, admitted) \<Rightarrow> Inr sampled_nodes)"


lemma snow_neighbors_props:
  "\<exists>new. snow_neighbors nbrs s ne k = (s @ new, foldl set_add ne new)
     \<and> distinct new \<and> set new \<subseteq> set nbrs - set s
     \<and> int (length (s @ new)) \<le> max k (int (length s))"
proof (induction nbrs s ne k rule: snow_neighbors.induct)
  case (1 sampled_nodes next_expand sample_size)
  have "snow_neighbors [] sampled_nodes next_expand sample_size
      = (sampled_nodes @ [], foldl set_add next_expand [])"
    by simp
  then show ?case
    by (intro exI [of _ "[]"]) simp
next
  case (2 neighbor rest sampled_nodes next_expand sample_size)
  show ?case
  proof (cases "int (length sampled_nodes) < sample_size")
    case False
    then have "snow_neighbors (neighbor # rest) sampled_nodes next_expand sample_size
        = (sampled_nodes @ [], foldl set_add next_expand [])"
      by simp
    then show ?thesis
      by (intro exI [of _ "[]"]) simp
  next
    case lt: True
    show ?thesis
    proof (cases "neighbor \<notin> set sampled_nodes")
      case False
      from "2.IH"(2) [OF lt False] obtain new where
        n: "snow_neighbors rest sampled_nodes next_expand sample_size
              = (sampled_nodes @ new, foldl set_add next_expand new)"
          "distinct new" "set new \<subseteq> set rest - set sampled_nodes"
          "int (length (sampled_nodes @ new)) \<le> max sample_size (int (length sampled_nodes))"
        by blast
      have "snow_neighbors (neighbor # rest) sampled_nodes next_expand sample_size
          = (sampled_nodes @ new, foldl set_add next_expand new)"
        using lt False n(1) by simp
      moreover have "set new \<subseteq> set (neighbor # rest) - set sampled_nodes"
        using n(3) by auto
      ultimately show ?thesis
        using n(2,4) by blast
    next
      case new: True
      have sa: "set_add sampled_nodes neighbor = sampled_nodes @ [neighbor]"
        using new by (simp add: set_add_def)
      from "2.IH"(1) [OF lt new] obtain new' where
        n: "snow_neighbors rest (set_add sampled_nodes neighbor) (set_add next_expand neighbor)
                sample_size
              = (set_add sampled_nodes neighbor @ new', foldl set_add (set_add next_expand neighbor) new')"
          "distinct new'" "set new' \<subseteq> set rest - set (set_add sampled_nodes neighbor)"
          "int (length (set_add sampled_nodes neighbor @ new'))
             \<le> max sample_size (int (length (set_add sampled_nodes neighbor)))"
        by blast
      have "snow_neighbors (neighbor # rest) sampled_nodes next_expand sample_size
          = (sampled_nodes @ neighbor # new', foldl set_add next_expand (neighbor # new'))"
        using lt new n(1) by (simp add: sa)
      moreover have "distinct (neighbor # new')"
        using n(2,3) by (auto simp: sa)
      moreover have "set (neighbor # new') \<subseteq> set (neighbor # rest) - set sampled_nodes"
        using n(3) new by (auto simp: sa)
      moreover have "int (length (sampled_nodes @ neighbor # new'))
          \<le> max sample_size (int (length sampled_nodes))"
        using n(4) lt by (simp add: sa)
      ultimately show ?thesis by blast
    qed
  qed
qed

lemma snow_nodes_props:
  "set te \<subseteq> set (nodes G) \<Longrightarrow>
   \<exists>new ne' rs'. snow_nodes G rs te s ne k = Inr (s @ new, ne', rs')
     \<and> distinct new \<and> set new \<inter> set s = {} \<and> set ne' = set ne \<union> set new
     \<and> (\<forall>v \<in> set new. \<exists>u \<in> set te. v \<in> set (adj G u))
     \<and> int (length (s @ new)) \<le> max k (int (length s))"
proof (induction te arbitrary: rs s ne)
  case Nil
  have "snow_nodes G rs [] s ne k = Inr (s @ [], ne, rs)" by simp
  then show ?case
    by (intro exI [of _ "[]"] exI [of _ ne] exI [of _ rs]) simp
next
  case (Cons node rest)
  let ?nbrs = "shuffle (fst (draw rs)) (adj G node)"
  have nb: "neighbors G node = Inr (adj G node)"
    using Cons.prems by (simp add: neighbors_node)
  obtain new1 where
    n1: "snow_neighbors ?nbrs s ne k = (s @ new1, foldl set_add ne new1)"
      "distinct new1" "set new1 \<subseteq> set ?nbrs - set s"
      "int (length (s @ new1)) \<le> max k (int (length s))"
    using snow_neighbors_props [of ?nbrs s ne k] by blast
  have rest: "set rest \<subseteq> set (nodes G)"
    using Cons.prems by simp
  from Cons.IH [OF rest, of "snd (draw rs)" "s @ new1" "foldl set_add ne new1"]
  obtain new2 ne' rs' where
    n2: "snow_nodes G (snd (draw rs)) rest (s @ new1) (foldl set_add ne new1) k
          = Inr ((s @ new1) @ new2, ne', rs')"
      "distinct new2" "set new2 \<inter> set (s @ new1) = {}"
      "set ne' = set (foldl set_add ne new1) \<union> set new2"
      "\<forall>v \<in> set new2. \<exists>u \<in> set rest. v \<in> set (adj G u)"
      "int (length ((s @ new1) @ new2)) \<le> max k (int (length (s @ new1)))"
    by blast
  have run: "snow_nodes G rs (node # rest) s ne k = Inr (s @ (new1 @ new2), ne', rs')"
    using nb n1(1) n2(1) by simp
  have d: "distinct (new1 @ new2)"
    using n1(2) n2(2,3) by auto
  have i: "set (new1 @ new2) \<inter> set s = {}"
    using n1(3) n2(3) by auto
  have e: "set ne' = set ne \<union> set (new1 @ new2)"
    using n2(4) foldl_set_add [of ne new1] by auto
  have a: "\<forall>v \<in> set (new1 @ new2). \<exists>u \<in> set (node # rest). v \<in> set (adj G u)"
    using n1(3) n2(5) by (auto simp: set_shuffle)
  have l: "int (length (s @ (new1 @ new2))) \<le> max k (int (length s))"
    using n1(4) n2(6) by simp
  from run d i e a l show ?case by blast
qed

lemma snow_rounds_props:
  "wf_graph G \<Longrightarrow> set te \<subseteq> set (nodes G) \<Longrightarrow> distinct s \<Longrightarrow>
   \<exists>ns adm. snow_rounds G rs d te s k = Inr (ns, adm)
     \<and> distinct ns \<and> set ns = set s \<union> \<Union> (set ` set adm) \<and> length adm \<le> d
     \<and> int (length ns) \<le> max k (int (length s))
     \<and> (\<forall>i < length adm. \<forall>v \<in> set (adm ! i).
           v \<notin> set s \<and> (\<exists>u \<in> set ((te # adm) ! i). v \<in> set (adj G u)))"
proof (induction d arbitrary: rs te s)
  case 0
  have "snow_rounds G rs 0 te s k = Inr (s, [])" by simp
  with "0.prems"(3) show ?case by simp
next
  case (Suc d)
  let ?te = "shuffle (fst (draw rs)) te"
  have te: "set ?te \<subseteq> set (nodes G)"
    using Suc.prems(2) by (simp add: set_shuffle)
  from snow_nodes_props [OF te, of "snd (draw rs)" s "[]" k]
  obtain new ne rs' where
    n: "snow_nodes G (snd (draw rs)) ?te s [] k = Inr (s @ new, ne, rs')"
      "distinct new" "set new \<inter> set s = {}" "set ne = set new"
      "\<forall>v \<in> set new. \<exists>u \<in> set ?te. v \<in> set (adj G u)"
      "int (length (s @ new)) \<le> max k (int (length s))"
    by auto
  have adj0: "\<forall>v \<in> set ne. v \<notin> set s \<and> (\<exists>u \<in> set te. v \<in> set (adj G u))"
    using n(3,4,5) by (auto simp: set_shuffle)
  have ds: "distinct (s @ new)"
    using Suc.prems(3) n(2,3) by auto
  show ?case
  proof (cases "int (length (s @ new)) \<ge> k")
    case True
    have run: "snow_rounds G rs (Suc d) te s k = Inr (s @ new, [ne])"
      using n(1) True by simp
    have "set (s @ new) = set s \<union> \<Union> (set ` set [ne])"
      using n(4) by simp
    moreover have "\<forall>i < length [ne]. \<forall>v \<in> set ([ne] ! i).
        v \<notin> set s \<and> (\<exists>u \<in> set ((te # [ne]) ! i). v \<in> set (adj G u))"
      using adj0 by simp
    moreover have "length [ne] \<le> Suc d" by simp
    ultimately show ?thesis
      using run ds n(6) by blast
  next
    case False
    have ne: "set ne \<subseteq> set (nodes G)"
      using adj0 wf_graph_adj_nodes [OF Suc.prems(1)] by blast
    from Suc.IH [OF Suc.prems(1) ne ds, of rs']
    obtain ns adm where
      r: "snow_rounds G rs' d ne (s @ new) k = Inr (ns, adm)"
        "distinct ns" "set ns = set (s @ new) \<union> \<Union> (set ` set adm)" "length adm \<le> d"
        "int (length ns) \<le> max k (int (length (s @ new)))"
        "\<forall>i < length adm. \<forall>v \<in> set (adm ! i).
           v \<notin> set (s @ new) \<and> (\<exists>u \<in> set ((ne # adm) ! i). v \<in> set (adj G u))"
      by blast
    have run: "snow_rounds G rs (Suc d) te s k = Inr (ns, ne # adm)"
      using n(1) False r(1) by simp
    have st: "set ns = set s \<union> \<Union> (set ` set (ne # adm))"
      using r(3) n(4) by auto
    have len: "length (ne # adm) \<le> Suc d"
      using r(4) by simp
    have sz: "int (length ns) \<le> max k (int (length s))"
      using r(5) n(6) by simp
    have lay: "\<forall>i < length (ne # adm). \<forall>v \<in> set ((ne # adm) ! i).
        v \<notin> set s \<and> (\<exists>u \<in> set ((te # ne # adm) ! i). v \<in> set (adj G u))"
    proof (intro allI impI)
      fix i assume i: "i < length (ne # adm)"
      show "\<forall>v \<in> set ((ne # adm) ! i).
          v \<notin> set s \<and> (\<exists>u \<in> set ((te # ne # adm) ! i). v \<in> set (adj G u))"
      proof (cases i)
        case 0
        then show ?thesis using adj0 by simp
      next
        case (Suc j)
        with i have "j < length adm" by simp
        with r(6) have "\<forall>v \<in> set (adm ! j).
            v \<notin> set (s @ new) \<and> (\<exists>u \<in> set ((ne # adm) ! j). v \<in> set (adj G u))"
          by blast
        then show ?thesis by (simp add: Suc)
      qed
    qed
    from run r(2) st len sz lay show ?thesis by blast
  qed
qed

text \<open>
  Claim C4, as amended. On a graph \<open>G\<close> with the initial nodes in \<open>G\<close>,
  \<^verbatim>\<open>snowball_sampling\<close> returns a list of nodes without duplicates, for every outcome of
  the random source, every target \<open>k\<close> and every depth: the initial nodes and the nodes
  admitted in the rounds, of which there are at most \<open>depth\<close>. A node admitted in a round
  is not an initial node and is a neighbour in \<open>G\<close> of a node admitted in the round before,
  or of an initial node in the first round. The result has at most \<open>k\<close> nodes or, when
  there are more than \<open>k\<close> distinct initial nodes, as many nodes as that.
\<close>

theorem snowball_sampling_rounds:
  assumes "wf_graph G" and "set initial_nodes \<subseteq> set (nodes G)"
  shows "\<exists>ns admitted.
           snowball_rounds G rs initial_nodes k depth = Inr (ns, admitted)
         \<and> snowball_sampling G rs initial_nodes k depth = Inr ns
         \<and> distinct ns
         \<and> set ns = set initial_nodes \<union> \<Union> (set ` set admitted)
         \<and> int (length admitted) \<le> max 0 depth
         \<and> int (length ns) \<le> max k (int (card (set initial_nodes)))
         \<and> (\<forall>d < length admitted. \<forall>v \<in> set (admitted ! d).
               v \<notin> set initial_nodes
               \<and> (\<exists>u \<in> set ((initial_nodes # admitted) ! d). v \<in> set (adj G u)))"
proof -
  have te: "set (set_of initial_nodes) \<subseteq> set (nodes G)"
    using assms(2) by (simp add: set_set_of)
  from snow_rounds_props [OF assms(1) te distinct_set_of,
      where rs = rs and d = "nat depth" and k = k]
  obtain ns where "\<exists>adm.
      snow_rounds G rs (nat depth) (set_of initial_nodes) (set_of initial_nodes) k = Inr (ns, adm)
      \<and> distinct ns \<and> set ns = set (set_of initial_nodes) \<union> \<Union> (set ` set adm)
      \<and> length adm \<le> nat depth
      \<and> int (length ns) \<le> max k (int (length (set_of initial_nodes)))
      \<and> (\<forall>i < length adm. \<forall>v \<in> set (adm ! i).
         v \<notin> set (set_of initial_nodes)
         \<and> (\<exists>u \<in> set ((set_of initial_nodes # adm) ! i). v \<in> set (adj G u)))" ..
  then obtain adm where r0:
      "snow_rounds G rs (nat depth) (set_of initial_nodes) (set_of initial_nodes) k = Inr (ns, adm)
      \<and> distinct ns \<and> set ns = set (set_of initial_nodes) \<union> \<Union> (set ` set adm)
      \<and> length adm \<le> nat depth
      \<and> int (length ns) \<le> max k (int (length (set_of initial_nodes)))
      \<and> (\<forall>i < length adm. \<forall>v \<in> set (adm ! i).
         v \<notin> set (set_of initial_nodes)
         \<and> (\<exists>u \<in> set ((set_of initial_nodes # adm) ! i). v \<in> set (adj G u)))" ..
  from r0 have
    r: "snow_rounds G rs (nat depth) (set_of initial_nodes) (set_of initial_nodes) k = Inr (ns, adm)"
      "distinct ns" "set ns = set (set_of initial_nodes) \<union> \<Union> (set ` set adm)"
      "length adm \<le> nat depth"
      "int (length ns) \<le> max k (int (length (set_of initial_nodes)))"
      "\<forall>i < length adm. \<forall>v \<in> set (adm ! i).
         v \<notin> set (set_of initial_nodes)
         \<and> (\<exists>u \<in> set ((set_of initial_nodes # adm) ! i). v \<in> set (adj G u))"
    by - (elim conjE, assumption)+
  have run: "snowball_rounds G rs initial_nodes k depth = Inr (ns, adm)"
    using r(1) by (simp add: snowball_rounds_def)
  then have res: "snowball_sampling G rs initial_nodes k depth = Inr ns"
    by (simp add: snowball_sampling_def)
  have st: "set ns = set initial_nodes \<union> \<Union> (set ` set adm)"
    using r(3) by (simp add: set_set_of)
  have len: "int (length adm) \<le> max 0 depth"
    using r(4) by simp
  have sz: "int (length ns) \<le> max k (int (card (set initial_nodes)))"
    using r(5) by (simp add: length_set_of)
  have lay: "\<forall>d < length adm. \<forall>v \<in> set (adm ! d).
      v \<notin> set initial_nodes \<and> (\<exists>u \<in> set ((initial_nodes # adm) ! d). v \<in> set (adj G u))"
  proof (intro allI impI ballI)
    fix d v assume d: "d < length adm" and v: "v \<in> set (adm ! d)"
    with r(6) have a: "v \<notin> set (set_of initial_nodes)"
      and b: "\<exists>u \<in> set ((set_of initial_nodes # adm) ! d). v \<in> set (adj G u)"
      by blast+
    have "set ((set_of initial_nodes # adm) ! d) = set ((initial_nodes # adm) ! d)"
      by (cases d) (simp_all add: set_set_of)
    with a b show "v \<notin> set initial_nodes
        \<and> (\<exists>u \<in> set ((initial_nodes # adm) ! d). v \<in> set (adj G u))"
      by (simp add: set_set_of)
  qed
  from run res r(2) st len sz lay show ?thesis
    by (intro exI [of _ ns] exI [of _ adm] conjI)
qed

lemma snow_path5_5: "snowball_rounds path5 [0, 0, 0, 0, 0] [3] 5 2 = Inr ([3, 2, 4, 1, 5], [[2, 4], [1, 5]])"
  by code_simp

lemma snow_path5_seeds: "snowball_sampling path5 [] [1, 2, 3] 2 1 = Inr [1, 2, 3]"
  by code_simp

lemma adj_path5_4: "adj path5 4 = [3, 5]"
  by code_simp

text \<open>The path graph on the nodes 1 to 5 from node 3 with the target 5 and the depth 2: the first round admits 2 and 4, the second round admits 1 and 5, and 5 is a neighbour of 4.\<close>

theorem snowball_sampling_rounds_witness:
  "wf_graph path5 \<and> set [3] \<subseteq> set (nodes path5)
   \<and> snowball_rounds path5 [0, 0, 0, 0, 0] [3] 5 2 = Inr ([3, 2, 4, 1, 5], [[2, 4], [1, 5]])
   \<and> snowball_sampling path5 [0, 0, 0, 0, 0] [3] 5 2 = Inr [3, 2, 4, 1, 5]
   \<and> int (length [3, 2, 4, 1, 5 :: nat]) \<le> max 5 (int (card (set [3 :: nat])))
   \<and> 1 < length [[2, 4], [1, 5 :: nat]] \<and> 5 \<in> set ([[2, 4], [1, 5 :: nat]] ! 1)
   \<and> 5 \<notin> set [3 :: nat]
   \<and> (\<exists>u \<in> set (([3] # [[2, 4], [1, 5]]) ! 1). 5 \<in> set (adj path5 u))"
proof -
  have sub: "set [3] \<subseteq> set (nodes path5)"
    by (simp add: nodes_path5)
  from snowball_sampling_rounds [OF wf_path5 sub,
      where rs = "[0, 0, 0, 0, 0]" and k = 5 and depth = 2]
  obtain ns where "\<exists>admitted.
           snowball_rounds path5 [0, 0, 0, 0, 0] [3] 5 2 = Inr (ns, admitted)
         \<and> snowball_sampling path5 [0, 0, 0, 0, 0] [3] 5 2 = Inr ns
         \<and> distinct ns
         \<and> set ns = set [3] \<union> \<Union> (set ` set admitted)
         \<and> int (length admitted) \<le> max 0 2
         \<and> int (length ns) \<le> max 5 (int (card (set [3 :: nat])))
         \<and> (\<forall>d < length admitted. \<forall>v \<in> set (admitted ! d).
               v \<notin> set [3]
               \<and> (\<exists>u \<in> set (([3] # admitted) ! d). v \<in> set (adj path5 u)))" ..
  then obtain adm where r0:
          "snowball_rounds path5 [0, 0, 0, 0, 0] [3] 5 2 = Inr (ns, adm)
         \<and> snowball_sampling path5 [0, 0, 0, 0, 0] [3] 5 2 = Inr ns
         \<and> distinct ns
         \<and> set ns = set [3] \<union> \<Union> (set ` set adm)
         \<and> int (length adm) \<le> max 0 2
         \<and> int (length ns) \<le> max 5 (int (card (set [3 :: nat])))
         \<and> (\<forall>d < length adm. \<forall>v \<in> set (adm ! d).
               v \<notin> set [3]
               \<and> (\<exists>u \<in> set (([3] # adm) ! d). v \<in> set (adj path5 u)))" ..
  from r0 have
    r: "snowball_rounds path5 [0, 0, 0, 0, 0] [3] 5 2 = Inr (ns, adm)"
      "snowball_sampling path5 [0, 0, 0, 0, 0] [3] 5 2 = Inr ns"
      "int (length ns) \<le> max 5 (int (card (set [3 :: nat])))"
      "\<forall>d < length adm. \<forall>v \<in> set (adm ! d).
         v \<notin> set [3] \<and> (\<exists>u \<in> set (([3] # adm) ! d). v \<in> set (adj path5 u))"
    by - (elim conjE, assumption)+
  from r(1) have ns: "ns = [3, 2, 4, 1, 5]" and adm: "adm = [[2, 4], [1, 5]]"
    by (simp_all add: snow_path5_5)
  have d1: "1 < length [[2, 4], [1, 5 :: nat]]" and v5: "5 \<in> set ([[2, 4], [1, 5 :: nat]] ! 1)"
    by simp_all
  from r(4) have "\<forall>d < length [[2, 4], [1, 5 :: nat]]. \<forall>v \<in> set ([[2, 4], [1, 5]] ! d).
         v \<notin> set [3] \<and> (\<exists>u \<in> set (([3] # [[2, 4], [1, 5]]) ! d). v \<in> set (adj path5 u))"
    unfolding adm .
  with d1 v5 have l: "5 \<notin> set [3 :: nat]"
      "\<exists>u \<in> set (([3] # [[2, 4], [1, 5]]) ! 1). 5 \<in> set (adj path5 u)"
    by blast+
  from r(2) have res: "snowball_sampling path5 [0, 0, 0, 0, 0] [3] 5 2 = Inr [3, 2, 4, 1, 5]"
    unfolding ns .
  from r(3) have sz: "int (length [3, 2, 4, 1, 5 :: nat]) \<le> max 5 (int (card (set [3 :: nat])))"
    unfolding ns .
  show ?thesis
    using wf_path5 sub snow_path5_5 res sz d1 v5 l by (intro conjI)
qed

text \<open>Claim C4 as stated says that the result never has more nodes than the target. With the three initial nodes 1, 2, 3 of the path graph and the target 2, \<^verbatim>\<open>snowball_sampling\<close> returns the three initial nodes: the sample starts as the set of all initial nodes.\<close>

theorem snowball_sampling_size_counterexample:
  "wf_graph path5 \<and> set [1, 2, 3] \<subseteq> set (nodes path5)
   \<and> snowball_sampling path5 [] [1, 2, 3] 2 1 = Inr [1, 2, 3]
   \<and> \<not> int (length [1, 2, 3 :: nat]) \<le> 2"
  using wf_path5 snow_path5_seeds by (simp add: nodes_path5)

end
